theory Spec2Isabelle
  imports
    Main
    "HOL-Library.Word"
    "HOL-Library.AList"
    "HOL-Library.Sublist"
    "HOL-Library.Multiset"
    "HOL-Library.Char_ord"
    "HOL-Library.List_Lexorder"
begin

section \<open>The include preprocessor of wgslPreprocessor.cpp\<close>

text \<open>
  The program walks the \<^verbatim>\<open>#include\<close> directives of a root file
  (\<^verbatim>\<open>findIncludes\<close>), records a depth for every file it meets in a
  \<^verbatim>\<open>std::map<path, uint32_t>\<close>, sorts the files by depth
  (\<^verbatim>\<open>convertActiveIncludesToVector\<close>) and copies their lines to the output
  (\<^verbatim>\<open>main\<close>).

  Paths are an abstract, linearly ordered type \<open>'p\<close>: the order is
  \<^verbatim>\<open>std::filesystem::path\<close>'s \<^verbatim>\<open>operator<\<close>, which fixes the iteration order
  of the map. Depths and the scan counter are \<^verbatim>\<open>uint32_t\<close>, that is \<open>32 word\<close>.
  A file is the list of lines that successive \<^verbatim>\<open>std::getline\<close> calls return.
\<close>

subsection \<open>The standard library's string functions\<close>

text \<open>
  \<^verbatim>\<open>std::string::find(pat, pos)\<close>: the lowest position \<open>\<ge> pos\<close> at which
  \<open>pat\<close> occurs, \<open>None\<close> for \<^verbatim>\<open>npos\<close>.
\<close>

primrec find_at :: "string \<Rightarrow> string \<Rightarrow> nat \<Rightarrow> nat option" where
  "find_at pat [] i = (if pat = [] then Some i else None)"
| "find_at pat (c # cs) i =
     (if prefix pat (c # cs) then Some i else find_at pat cs (Suc i))"

definition str_find :: "string \<Rightarrow> string \<Rightarrow> nat \<Rightarrow> nat option" where
  "str_find s pat pos =
     (if pos \<le> length s then find_at pat (drop pos s) pos else None)"

text \<open>
  \<^verbatim>\<open>std::string::rfind(pat, pos)\<close>: the highest position \<open>\<le> pos\<close> at which
  \<open>pat\<close> occurs, \<open>None\<close> for \<^verbatim>\<open>npos\<close>.
\<close>

definition str_rfind :: "string \<Rightarrow> string \<Rightarrow> nat \<Rightarrow> nat option" where
  "str_rfind s pat pos =
     (if length s < length pat then None
      else (case filter (\<lambda>i. prefix pat (drop i s))
                   (rev [0 ..< Suc (min pos (length s - length pat))]) of
              [] \<Rightarrow> None
            | i # _ \<Rightarrow> Some i))"

text \<open>\<^verbatim>\<open>std::string::substr(pos, n)\<close>, for \<open>pos \<le> length s\<close>.\<close>

definition substr :: "string \<Rightarrow> nat \<Rightarrow> nat \<Rightarrow> string" where
  "substr s pos n = take n (drop pos s)"

text \<open>The directive prefix \<^verbatim>\<open>#include "\<close>; \<open>CHR 0x22\<close> is the double quote.\<close>

definition include_directive_prefix :: string where
  "include_directive_prefix = ''#include '' @ [CHR 0x22]"

subsection \<open>The file system and the state of the walk\<close>

text \<open>
  What the program reads of its environment, taken as parameters:
  \<^item> \<open>readLines p\<close>: the lines of the file at \<open>p\<close>, \<open>None\<close> when
    \<^verbatim>\<open>std::ifstream\<close> cannot open it;
  \<^item> \<open>canonical p\<close>: \<^verbatim>\<open>std::filesystem::canonical\<close>, \<open>None\<close> when it throws;
  \<^item> \<open>join d name\<close>: \<^verbatim>\<open>d / name\<close>;
  \<^item> \<open>parent_path\<close>, \<open>absolute\<close>: the functions of the same names;
  \<^item> \<open>writable name\<close>: whether \<^verbatim>\<open>std::ofstream::open\<close> succeeds on \<open>name\<close>.
  The files do not change during a run; in particular the output file is none of the
  files read.
\<close>

record 'p filesystem =
  readLines :: "'p \<Rightarrow> string list option"
  canonical :: "'p \<Rightarrow> 'p option"
  join :: "'p \<Rightarrow> string \<Rightarrow> 'p"
  parent_path :: "'p \<Rightarrow> 'p"
  absolute :: "string \<Rightarrow> 'p"
  writable :: "string \<Rightarrow> bool"

text \<open>The messages written to \<^verbatim>\<open>std::cerr\<close>, one constructor per message.\<close>

datatype 'p diag =
    CanonicalIncludedError 'p
  | CouldNotOpenFile 'p
  | MalformedInclude 'p string
  | UsageError
  | CanonicalInitialError string
  | FindIncludesFailed
  | CouldNotOpenOutput string
  | CouldNotOpenInput 'p

text \<open>
  The state the walk threads through its calls: the map \<^verbatim>\<open>activeIncludes\<close>
  (an association list with \<open>map_of\<close>, \<open>AList.update\<close> and \<open>AList.delete\<close> for
  \<^verbatim>\<open>at\<close>, \<^verbatim>\<open>insert_or_assign\<close> and \<^verbatim>\<open>erase\<close>) and the diagnostic
  stream. The field \<open>visits\<close> is a history variable that the program does not have:
  it lists the calls of \<^verbatim>\<open>findIncludes\<close> so far, each with its file and depth,
  and nothing reads it.
\<close>

record 'p walk_state =
  activeIncludes :: "('p \<times> 32 word) list"
  cerr :: "'p diag list"
  visits :: "('p \<times> 32 word) list"

definition initial_state :: "'p walk_state" where
  "initial_state = \<lparr>activeIncludes = [], cerr = [], visits = []\<rparr>"

subsection \<open>removeDot\<close>

definition removeDot :: "'p filesystem \<Rightarrow> 'p \<Rightarrow> 'p walk_state \<Rightarrow> 'p \<times> 'p walk_state" where
  "removeDot fs absoluteIncludedPath s =
     (case canonical fs absoluteIncludedPath of
        Some p \<Rightarrow> (p, s)
      | None \<Rightarrow>
          (absoluteIncludedPath,
           s\<lparr>cerr := cerr s @ [CanonicalIncludedError absoluteIncludedPath]\<rparr>))"

subsection \<open>findIncludes\<close>

text \<open>
  The \<^verbatim>\<open>while\<close> loop of \<^verbatim>\<open>findIncludes\<close> over the lines still to read;
  \<open>visit\<close> is the recursive call, \<open>None\<close> when it does not return.
\<close>

fun scanLines ::
  "('p \<Rightarrow> 'p \<Rightarrow> 'p walk_state \<Rightarrow> 32 word \<Rightarrow> (bool \<times> 'p walk_state) option) \<Rightarrow>
   'p filesystem \<Rightarrow> 'p \<Rightarrow> 'p \<Rightarrow> 32 word \<Rightarrow> string list \<Rightarrow> 32 word \<Rightarrow> 'p walk_state \<Rightarrow>
   (bool \<times> 'p walk_state) option" where
  "scanLines visit fs filePath currentBaseDir depth [] nothingFoundCount s = Some (True, s)"
| "scanLines visit fs filePath currentBaseDir depth (line # rest) nothingFoundCount s =
     (if \<not> nothingFoundCount < 5 then Some (True, s)
      else if str_rfind line include_directive_prefix 0 = Some 0 then
        (let start_quote_pos = length include_directive_prefix in
         case str_find line [CHR 0x22] start_quote_pos of
           Some end_quote_pos \<Rightarrow>
             (let includedRelativeFileName =
                    substr line start_quote_pos (end_quote_pos - start_quote_pos);
                  (absoluteIncludedPath, s1) =
                    removeDot fs (join fs currentBaseDir includedRelativeFileName) s;
                  nextBaseDir = parent_path fs absoluteIncludedPath
              in case visit absoluteIncludedPath nextBaseDir s1 (depth + 1) of
                   None \<Rightarrow> None
                 | Some (False, s2) \<Rightarrow>
                     Some (False,
                       s2\<lparr>activeIncludes := AList.delete filePath (activeIncludes s2)\<rparr>)
                 | Some (True, s2) \<Rightarrow>
                     scanLines visit fs filePath currentBaseDir depth rest 0 s2)
         | None \<Rightarrow>
             scanLines visit fs filePath currentBaseDir depth rest nothingFoundCount
               (s\<lparr>cerr := cerr s @ [MalformedInclude filePath line]\<rparr>))
      else scanLines visit fs filePath currentBaseDir depth rest (nothingFoundCount + 1) s)"

text \<open>Lines 81 to 125: open the file, scan it, close it.\<close>

definition scanFile ::
  "('p \<Rightarrow> 'p \<Rightarrow> 'p walk_state \<Rightarrow> 32 word \<Rightarrow> (bool \<times> 'p walk_state) option) \<Rightarrow>
   'p filesystem \<Rightarrow> 'p \<Rightarrow> 'p \<Rightarrow> 32 word \<Rightarrow> 'p walk_state \<Rightarrow>
   (bool \<times> 'p walk_state) option" where
  "scanFile visit fs filePath currentBaseDir depth s =
     (case readLines fs filePath of
        None \<Rightarrow>
          Some (False,
            s\<lparr>cerr := cerr s @ [CouldNotOpenFile filePath],
              activeIncludes := AList.delete filePath (activeIncludes s)\<rparr>)
      | Some lines \<Rightarrow> scanLines visit fs filePath currentBaseDir depth lines 0 s)"

text \<open>
  \<^verbatim>\<open>findIncludes\<close>. The recursion of the source has no bound, so the model
  counts the nesting of calls it may still open: with none left the result is
  \<open>None\<close>, and a call returns exactly when some bound gives \<open>Some\<close>.
  \<^verbatim>\<open>activeIncludes.at\<close> throws for a missing key, which the \<^verbatim>\<open>catch\<close>
  turns into the insertion of line 79.
\<close>

primrec findIncludes ::
  "nat \<Rightarrow> 'p filesystem \<Rightarrow> 'p \<Rightarrow> 'p \<Rightarrow> 'p walk_state \<Rightarrow> 32 word \<Rightarrow>
   (bool \<times> 'p walk_state) option" where
  "findIncludes 0 fs filePath currentBaseDir s depth = None"
| "findIncludes (Suc n) fs filePath currentBaseDir s depth =
     (let s0 = s\<lparr>visits := visits s @ [(filePath, depth)]\<rparr> in
      case map_of (activeIncludes s0) filePath of
        Some d_old \<Rightarrow>
          if d_old < depth then
            Some (True,
              s0\<lparr>activeIncludes := AList.update filePath depth (activeIncludes s0)\<rparr>)
          else scanFile (findIncludes n fs) fs filePath currentBaseDir depth s0
      | None \<Rightarrow>
          scanFile (findIncludes n fs) fs filePath currentBaseDir depth
            (s0\<lparr>activeIncludes := AList.update filePath depth (activeIncludes s0)\<rparr>))"

subsection \<open>convertActiveIncludesToVector\<close>

text \<open>
  \<^verbatim>\<open>std::sort\<close> is a parameter. Its contract for the comparison
  \<^verbatim>\<open>a.first > b.first\<close>: the result is a permutation of the input in which no
  later element compares before an earlier one. The order of elements with equal
  depths is left open, as the standard leaves it.
\<close>

definition std_sort_contract ::
  "((32 word \<times> 'p) list \<Rightarrow> (32 word \<times> 'p) list) \<Rightarrow> bool" where
  "std_sort_contract std_sort =
     (\<forall>xs. mset (std_sort xs) = mset xs \<and>
           sorted_wrt (\<lambda>a b. \<not> fst b > fst a) (std_sort xs))"

text \<open>The map is iterated in the order of its keys.\<close>

definition convertActiveIncludesToVector ::
  "((32 word \<times> 'p) list \<Rightarrow> (32 word \<times> 'p) list) \<Rightarrow>
   ('p::linorder \<times> 32 word) list \<Rightarrow> 'p list" where
  "convertActiveIncludesToVector std_sort m =
     (let valueKeyPairs = map (\<lambda>pair. (snd pair, fst pair)) (sort_key fst m)
      in map snd (std_sort valueKeyPairs))"

text \<open>One implementation of the contract: insertion sort, read backwards.\<close>

definition insertion_sort_desc :: "(32 word \<times> 'p) list \<Rightarrow> (32 word \<times> 'p) list" where
  "insertion_sort_desc xs = rev (sort_key fst xs)"

subsection \<open>main\<close>

text \<open>The inner loop of lines 213 to 221: the lines of one file that reach the output.\<close>

definition copyLines :: "string list \<Rightarrow> string list" where
  "copyLines lines = filter (\<lambda>line. str_find line ''#include'' 0 = None) lines"

text \<open>The loop of lines 201 to 224: the output lines and the messages, in order.\<close>

fun emitFiles :: "'p filesystem \<Rightarrow> 'p list \<Rightarrow> string list \<times> 'p diag list" where
  "emitFiles fs [] = ([], [])"
| "emitFiles fs (filePath # rest) =
     (let (out, log) = emitFiles fs rest in
      case readLines fs filePath of
        None \<Rightarrow> (out, CouldNotOpenInput filePath # log)
      | Some lines \<Rightarrow> (copyLines lines @ out, log))"

text \<open>
  What a run leaves behind: the exit code, the lines written to the output stream, the
  messages on \<^verbatim>\<open>std::cerr\<close>, and, for the statements below, the depth map at
  the end of the walk.
\<close>

record 'p run_result =
  exit_code :: int
  written :: "string list"
  diagnostics :: "'p diag list"
  final_map :: "('p \<times> 32 word) list"

text \<open>
  \<^verbatim>\<open>main\<close> on the arguments \<open>argv\<close> (\<open>argc = length argv\<close>, with
  \<open>argv ! 0\<close> the program's name). The result is \<open>None\<close> when the walk does
  not return.
\<close>

definition main ::
  "nat \<Rightarrow> ((32 word \<times> 'p) list \<Rightarrow> (32 word \<times> 'p) list) \<Rightarrow> 'p::linorder filesystem \<Rightarrow>
   string list \<Rightarrow> 'p run_result option" where
  "main fuel std_sort fs argv =
     (if length argv < 2 \<or> length argv > 3 then
        Some \<lparr>exit_code = 1, written = [], diagnostics = [UsageError], final_map = []\<rparr>
      else
        let programBaseDir = parent_path fs (absolute fs (argv ! 0));
            inputFilePathArgument = argv ! 1
        in case canonical fs (join fs programBaseDir inputFilePathArgument) of
             None \<Rightarrow>
               Some \<lparr>exit_code = 1, written = [],
                     diagnostics = [CanonicalInitialError inputFilePathArgument],
                     final_map = []\<rparr>
           | Some absoluteInitialFilePath \<Rightarrow>
               (case findIncludes fuel fs absoluteInitialFilePath
                       (parent_path fs absoluteInitialFilePath) initial_state 0 of
                  None \<Rightarrow> None
                | Some (ok, s) \<Rightarrow>
                    (let log = cerr s @ (if ok then [] else [FindIncludesFailed]) in
                     if length argv = 3 \<and> \<not> writable fs (argv ! 2) then
                       Some \<lparr>exit_code = 1, written = [],
                             diagnostics = log @ [CouldNotOpenOutput (argv ! 2)],
                             final_map = activeIncludes s\<rparr>
                     else
                       let includes = convertActiveIncludesToVector std_sort (activeIncludes s);
                           (out, log2) = emitFiles fs includes
                       in Some \<lparr>exit_code = 0, written = out, diagnostics = log @ log2,
                                final_map = activeIncludes s\<rparr>)))"

subsection \<open>Notions the statements use\<close>

text \<open>
  A malformed directive: the line begins with the prefix and has no closing quote
  after it.
\<close>

definition malformed_directive :: "string \<Rightarrow> bool" where
  "malformed_directive line \<longleftrightarrow>
     prefix include_directive_prefix line \<and>
     CHR 0x22 \<notin> set (drop (length include_directive_prefix) line)"

text \<open>
  The invariant of the depth map, stated over the history of calls: a file has an entry
  exactly when a call was made on it, and the entry is the largest depth of these calls.
\<close>

definition depth_invariant :: "'p walk_state \<Rightarrow> bool" where
  "depth_invariant s \<longleftrightarrow>
     (\<forall>f. map_of (activeIncludes s) f =
            (if \<exists>d. (f, d) \<in> set (visits s)
             then Some (Max {d. (f, d) \<in> set (visits s)}) else None))"

text \<open>The path that \<^verbatim>\<open>removeDot\<close> leaves in its argument.\<close>

definition resolved :: "'p filesystem \<Rightarrow> 'p \<Rightarrow> 'p" where
  "resolved fs p = (case canonical fs p of Some q \<Rightarrow> q | None \<Rightarrow> p)"

text \<open>
  The files that the loop of \<^verbatim>\<open>findIncludes\<close> visits, in order, when every visit
  returns success: the loop of \<open>scanLines\<close> with the same tests, without the calls.
\<close>

fun scan_targets :: "'p filesystem \<Rightarrow> 'p \<Rightarrow> string list \<Rightarrow> 32 word \<Rightarrow> 'p list" where
  "scan_targets fs currentBaseDir [] nothingFoundCount = []"
| "scan_targets fs currentBaseDir (line # rest) nothingFoundCount =
     (if \<not> nothingFoundCount < 5 then []
      else if str_rfind line include_directive_prefix 0 = Some 0 then
        (let start_quote_pos = length include_directive_prefix in
         case str_find line [CHR 0x22] start_quote_pos of
           Some end_quote_pos \<Rightarrow>
             resolved fs (join fs currentBaseDir
               (substr line start_quote_pos (end_quote_pos - start_quote_pos))) #
             scan_targets fs currentBaseDir rest 0
         | None \<Rightarrow> scan_targets fs currentBaseDir rest nothingFoundCount)
      else scan_targets fs currentBaseDir rest (nothingFoundCount + 1))"


text \<open>The files that have an entry in the depth map.\<close>

definition recorded :: "'p walk_state \<Rightarrow> 'p set" where
  "recorded s = fst ` set (activeIncludes s)"

text \<open>
  How a state can differ from an earlier one in a walk without failure: the history
  has been extended, and every entry is still there with a depth that is not smaller.
\<close>

definition walk_grows :: "'p walk_state \<Rightarrow> 'p walk_state \<Rightarrow> bool" where
  "walk_grows s s' \<longleftrightarrow>
     (\<exists>ws. visits s' = visits s @ ws) \<and>
     (\<forall>g v. map_of (activeIncludes s) g = Some v \<longrightarrow>
            (\<exists>v'. map_of (activeIncludes s') g = Some v' \<and> v \<le> v'))"

subsection \<open>A flat directory, for the examples\<close>

text \<open>
  Paths are file names, every included name is the path itself, and every path is
  canonical. \<open>inc name\<close> is the line \<^verbatim>\<open>#include "name"\<close>.
\<close>

definition flat_fs :: "(string \<times> string list) list \<Rightarrow> string filesystem" where
  "flat_fs files =
     \<lparr>readLines = map_of files, canonical = Some, join = (\<lambda>d name. name),
      parent_path = (\<lambda>p. []), absolute = (\<lambda>p. p), writable = (\<lambda>name. True)\<rparr>"

definition inc :: "string \<Rightarrow> string" where
  "inc name = include_directive_prefix @ name @ [CHR 0x22]"

text \<open>The root file \<^verbatim>\<open>a\<close> with the two lines \<^verbatim>\<open>#include "a"\<close>.\<close>

definition self_twice :: "string filesystem" where
  "self_twice = flat_fs [(''a'', [inc ''a'', inc ''a''])]"

text \<open>
  \<^verbatim>\<open>a\<close> includes \<^verbatim>\<open>b\<close> and \<^verbatim>\<open>c\<close>, and \<^verbatim>\<open>c\<close> includes
  \<^verbatim>\<open>b\<close>.
\<close>

definition diamond_fs :: "string filesystem" where
  "diamond_fs =
     flat_fs [(''a'', [inc ''b'', inc ''c'', ''body a'']), (''b'', [''body b'']),
              (''c'', [inc ''b'', ''body c''])]"


text \<open>
  \<^verbatim>\<open>a\<close> includes \<^verbatim>\<open>b\<close> and \<^verbatim>\<open>c\<close>, \<^verbatim>\<open>b\<close> includes
  \<^verbatim>\<open>d\<close>, and \<^verbatim>\<open>c\<close> includes \<^verbatim>\<open>b\<close>.
\<close>

definition hop_fs :: "string filesystem" where
  "hop_fs =
     flat_fs [(''a'', [inc ''b'', inc ''c'']), (''b'', [inc ''d'']), (''c'', [inc ''b'']),
              (''d'', [''body d''])]"

text \<open>
  \<^verbatim>\<open>a\<close> includes \<^verbatim>\<open>b\<close> and a file that does not exist; and the same
  directory when no output file can be opened.
\<close>

definition missing_fs :: "string filesystem" where
  "missing_fs = flat_fs [(''a'', [inc ''b'', inc ''zz'', ''body a'']), (''b'', [''body b''])]"

definition readonly_fs :: "string filesystem" where
  "readonly_fs = missing_fs\<lparr>writable := (\<lambda>name. False)\<rparr>"

section \<open>Properties\<close>

subsection \<open>The string functions\<close>

lemma str_rfind_0: "str_rfind s pat 0 = Some 0 \<longleftrightarrow> prefix pat s"
  by (auto simp: str_rfind_def prefix_length_le not_less split: list.splits)

lemma find_at_None: "find_at pat s i = None \<longleftrightarrow> \<not> sublist pat s"
  by (induction s arbitrary: i) (auto simp: sublist_Cons_right)

lemma str_find_0_None: "str_find s pat 0 = None \<longleftrightarrow> \<not> sublist pat s"
  by (simp add: str_find_def find_at_None)

lemma find_at_char_None: "find_at [c] s i = None \<longleftrightarrow> c \<notin> set s"
  by (induction s arbitrary: i) auto

lemma str_find_char_None:
  "pos \<le> length s \<Longrightarrow> str_find s [c] pos = None \<longleftrightarrow> c \<notin> set (drop pos s)"
  by (simp add: str_find_def find_at_char_None)

subsection \<open>The emission filter\<close>

lemma copyLines_sublist: "copyLines ls = filter (\<lambda>l. \<not> sublist ''#include'' l) ls"
  by (simp add: copyLines_def str_find_0_None)

text \<open>
  C7. The output of the emission pass is, file by file in the order given, the lines
  of each file that opens, without exactly those lines that contain
  \<^verbatim>\<open>#include\<close> as a substring: a line is copied if and only if \<^verbatim>\<open>#include\<close>
  occurs nowhere in it, whether or not it is a valid directive.
\<close>

theorem emission_filter:
  "fst (emitFiles fs files) =
     concat (map (\<lambda>f. case readLines fs f of
                         None \<Rightarrow> []
                       | Some ls \<Rightarrow> filter (\<lambda>l. \<not> sublist ''#include'' l) ls) files)"
  by (induction files) (auto simp: copyLines_sublist split: prod.splits option.splits)

subsection \<open>Malformed directives and the scan counter\<close>

lemma malformed_step:
  assumes "malformed_directive l" and "c < 5"
  shows "scanLines visit fs f base d (l # rest) c s =
         scanLines visit fs f base d rest c (s\<lparr>cerr := cerr s @ [MalformedInclude f l]\<rparr>)"
proof -
  from assms(1) have p: "prefix include_directive_prefix l"
    and q: "CHR 0x22 \<notin> set (drop (length include_directive_prefix) l)"
    by (simp_all add: malformed_directive_def)
  from p have "length include_directive_prefix \<le> length l"
    by (rule prefix_length_le)
  with q have "str_find l [CHR 0x22] (length include_directive_prefix) = None"
    by (simp add: str_find_char_None)
  with p assms(2) show ?thesis
    by (simp add: str_rfind_0)
qed

text \<open>
  C10. A run of malformed directive lines, of any length, leaves the counter of the
  early stop as it was: the scan goes on with the lines after the run and the same
  counter, having written one warning per line.
\<close>

theorem malformed_lines_keep_counter:
  assumes "\<forall>l \<in> set ms. malformed_directive l" and "nothingFoundCount < 5"
  shows "scanLines visit fs filePath base depth (ms @ rest) nothingFoundCount s =
         scanLines visit fs filePath base depth rest nothingFoundCount
           (s\<lparr>cerr := cerr s @ map (MalformedInclude filePath) ms\<rparr>)"
  using assms
proof (induction ms arbitrary: s)
  case Nil
  then show ?case by simp
next
  case (Cons l ms)
  then show ?case by (simp add: malformed_step del: scanLines.simps)
qed

lemma malformed_ex: "malformed_directive (include_directive_prefix @ ''x'')"
  by (simp add: malformed_directive_def include_directive_prefix_def)

theorem malformed_lines_keep_counter_witness:
  "scanLines (findIncludes 1 (flat_fs [(''b'', [])])) (flat_fs [(''b'', [])]) ''a'' [] 0
     (replicate 6 (include_directive_prefix @ ''x'') @ [inc ''b'']) 0 initial_state =
   Some (True,
     \<lparr>activeIncludes = [(''b'', 1)],
      cerr = replicate 6 (MalformedInclude ''a'' (include_directive_prefix @ ''x'')),
      visits = [(''b'', 1)]\<rparr>)"
proof -
  have h: "\<forall>l \<in> set (replicate 6 (include_directive_prefix @ ''x'')). malformed_directive l"
    by (simp add: malformed_ex)
  have "scanLines (findIncludes 1 (flat_fs [(''b'', [])])) (flat_fs [(''b'', [])]) ''a'' [] 0
     (replicate 6 (include_directive_prefix @ ''x'') @ [inc ''b'']) 0 initial_state =
     scanLines (findIncludes 1 (flat_fs [(''b'', [])])) (flat_fs [(''b'', [])]) ''a'' [] 0
       [inc ''b''] 0
       (initial_state\<lparr>cerr := cerr initial_state @
           map (MalformedInclude ''a'') (replicate 6 (include_directive_prefix @ ''x''))\<rparr>)"
    by (rule malformed_lines_keep_counter [OF h]) simp
  also have "\<dots> = Some (True,
     \<lparr>activeIncludes = [(''b'', 1)],
      cerr = replicate 6 (MalformedInclude ''a'' (include_directive_prefix @ ''x'')),
      visits = [(''b'', 1)]\<rparr>)"
    by code_simp
  finally show ?thesis .
qed

subsection \<open>Failure unwinding\<close>

lemma scanLines_failure_erases:
  "scanLines visit fs f base d lines c s = Some (False, s') \<Longrightarrow>
   map_of (activeIncludes s') f = None"
proof (induction lines arbitrary: c s)
  case Nil
  then show ?case by simp
next
  case (Cons l lines)
  then show ?case
    by (auto simp: Let_def delete_conv' split: if_splits option.splits prod.splits bool.splits)
qed

lemma scanFile_failure_erases:
  "scanFile visit fs f base d s = Some (False, s') \<Longrightarrow> map_of (activeIncludes s') f = None"
  by (auto simp: scanFile_def delete_conv' split: option.splits
           dest: scanLines_failure_erases)

lemma findIncludes_failure_erases:
  "findIncludes n fs f base s d = Some (False, s') \<Longrightarrow> map_of (activeIncludes s') f = None"
  by (cases n) (auto simp: Let_def split: option.splits if_splits dest: scanFile_failure_erases)

lemma scanFile_unopenable:
  "readLines fs f = None \<Longrightarrow>
   scanFile visit fs f base d s =
     Some (False, s\<lparr>cerr := cerr s @ [CouldNotOpenFile f],
                    activeIncludes := AList.delete f (activeIncludes s)\<rparr>)"
  by (simp add: scanFile_def)

text \<open>
  C8. A call that reaches a file it cannot open reports the failure, erases the file's
  entry and returns failure; every call that returns failure has erased its own file's
  entry; and a call whose recursive visit returns failure erases its own file's entry
  and returns failure at once.
\<close>

theorem failure_unwinding:
  "(readLines fs f = None \<and> \<not> (\<exists>v. map_of (activeIncludes s) f = Some v \<and> v < d) \<longrightarrow>
      (\<exists>s'. findIncludes (Suc n) fs f base s d = Some (False, s') \<and>
            map_of (activeIncludes s') f = None \<and>
            cerr s' = cerr s @ [CouldNotOpenFile f])) \<and>
   (findIncludes n fs f base s d = Some (False, s') \<longrightarrow>
      map_of (activeIncludes s') f = None) \<and>
   (c < 5 \<and> prefix include_directive_prefix l \<and>
    str_find l [CHR 0x22] (length include_directive_prefix) = Some e \<and>
    removeDot fs (join fs base (substr l (length include_directive_prefix)
        (e - length include_directive_prefix))) s = (p, s1) \<and>
    visit p (parent_path fs p) s1 (d + 1) = Some (False, s2) \<longrightarrow>
      scanLines visit fs f base d (l # rest) c s =
        Some (False, s2\<lparr>activeIncludes := AList.delete f (activeIncludes s2)\<rparr>))"
proof (intro conjI impI)
  assume a: "readLines fs f = None \<and> \<not> (\<exists>v. map_of (activeIncludes s) f = Some v \<and> v < d)"
  then show "\<exists>s'. findIncludes (Suc n) fs f base s d = Some (False, s') \<and>
            map_of (activeIncludes s') f = None \<and>
            cerr s' = cerr s @ [CouldNotOpenFile f]"
    by (cases "map_of (activeIncludes s) f")
       (auto simp: Let_def scanFile_unopenable delete_conv')
next
  assume "findIncludes n fs f base s d = Some (False, s')"
  then show "map_of (activeIncludes s') f = None"
    by (rule findIncludes_failure_erases)
next
  assume "c < 5 \<and> prefix include_directive_prefix l \<and>
    str_find l [CHR 0x22] (length include_directive_prefix) = Some e \<and>
    removeDot fs (join fs base (substr l (length include_directive_prefix)
        (e - length include_directive_prefix))) s = (p, s1) \<and>
    visit p (parent_path fs p) s1 (d + 1) = Some (False, s2)"
  then show "scanLines visit fs f base d (l # rest) c s =
        Some (False, s2\<lparr>activeIncludes := AList.delete f (activeIncludes s2)\<rparr>)"
    by (simp add: str_rfind_0 Let_def)
qed

theorem failure_unwinding_witness:
  "findIncludes 3 (flat_fs [(''a'', [inc ''c'', inc ''b'']), (''b'', [inc ''zz'']), (''c'', [])])
       ''a'' [] initial_state 0 =
     Some (False, \<lparr>activeIncludes = [(''c'', 1)], cerr = [CouldNotOpenFile ''zz''],
                   visits = [(''a'', 0), (''c'', 1), (''b'', 1), (''zz'', 2)]\<rparr>) \<and>
   map_of (activeIncludes \<lparr>activeIncludes = [(''c'', 1)], cerr = [CouldNotOpenFile ''zz''],
                   visits = [(''a'', 0), (''c'', 1), (''b'', 1), (''zz'', 2)]\<rparr>) ''a'' = None"
proof -
  have e: "findIncludes 3 (flat_fs [(''a'', [inc ''c'', inc ''b'']), (''b'', [inc ''zz'']), (''c'', [])])
       ''a'' [] initial_state 0 =
     Some (False, \<lparr>activeIncludes = [(''c'', 1)], cerr = [CouldNotOpenFile ''zz''],
                   visits = [(''a'', 0), (''c'', 1), (''b'', 1), (''zz'', 2)]\<rparr>)"
    by code_simp
  from failure_unwinding [THEN conjunct2, THEN conjunct1, THEN mp, OF e] e
  show ?thesis by (rule conjI [rotated])
qed

subsection \<open>Revisiting a file\<close>

text \<open>
  C1, as the code has it by design. For a file that already has a recorded depth
  \<open>d_old < depth\<close>, the recorded depth is raised to \<open>depth\<close>, no other entry
  changes, and the call returns success at once: the result is the same for every
  file system, so the file is neither opened nor scanned.
\<close>

theorem revisit_policy:
  assumes "map_of (activeIncludes s) filePath = Some d_old" and "d_old < depth"
  shows "findIncludes (Suc n) fs filePath base s depth =
           Some (True, s\<lparr>visits := visits s @ [(filePath, depth)],
                         activeIncludes := AList.update filePath depth (activeIncludes s)\<rparr>) \<and>
         map_of (AList.update filePath depth (activeIncludes s)) =
           (map_of (activeIncludes s))(filePath \<mapsto> depth)"
  using assms by (simp add: Let_def update_conv')

text \<open>
  The claim as stated fails in both of its halves. With \<open>d_old = depth = 0\<close> the
  call does not return at once: the file is read again and its include is visited and
  recorded. With \<open>d_old = 0 < depth = 1\<close> the depth is raised but the file is not
  scanned: its include is neither visited nor recorded.
\<close>

theorem revisit_policy_counterexample:
  "findIncludes 2 (flat_fs [(''a'', [inc ''b'']), (''b'', [])]) ''a'' []
      \<lparr>activeIncludes = [(''a'', 0)], cerr = [], visits = [(''a'', 0)]\<rparr> 0 =
     Some (True, \<lparr>activeIncludes = [(''a'', 0), (''b'', 1)], cerr = [],
                  visits = [(''a'', 0), (''a'', 0), (''b'', 1)]\<rparr>) \<and>
   findIncludes 2 (flat_fs [(''a'', [inc ''b'']), (''b'', [])]) ''a'' []
      \<lparr>activeIncludes = [(''a'', 0)], cerr = [], visits = [(''a'', 0)]\<rparr> 1 =
     Some (True, \<lparr>activeIncludes = [(''a'', 1)], cerr = [],
                  visits = [(''a'', 0), (''a'', 1)]\<rparr>)"
  by code_simp

theorem revisit_policy_witness:
  "findIncludes 1 (flat_fs [(''a'', [inc ''b'']), (''b'', [])]) ''a'' []
      \<lparr>activeIncludes = [(''a'', 0)], cerr = [], visits = [(''a'', 0)]\<rparr> 1 =
     Some (True, \<lparr>activeIncludes = [(''a'', 1)], cerr = [],
                  visits = [(''a'', 0), (''a'', 1)]\<rparr>)"
proof -
  have h: "map_of (activeIncludes \<lparr>activeIncludes = [(''a'', 0)], cerr = [],
                                    visits = [(''a'', 0)]\<rparr>) ''a'' = Some (0 :: 32 word)"
    by simp
  have l: "(0 :: 32 word) < 1"
    by simp
  from revisit_policy [OF h l, of 0 "flat_fs [(''a'', [inc ''b'']), (''b'', [])]" "[]",
      THEN conjunct1]
  show ?thesis by simp
qed

subsection \<open>Emission order\<close>

lemma convert_mset:
  assumes "std_sort_contract std_sort"
  shows "mset (convertActiveIncludesToVector std_sort m) = mset (map fst m)"
proof -
  let ?xs = "map (\<lambda>pair. (snd pair, fst pair)) (sort_key fst m)"
  have "mset (std_sort ?xs) = mset ?xs"
    using assms by (simp add: std_sort_contract_def)
  then have "image_mset snd (mset (std_sort ?xs)) = image_mset snd (mset ?xs)"
    by (rule arg_cong)
  then have "mset (map snd (std_sort ?xs)) = mset (map snd ?xs)"
    by (simp only: mset_map)
  also have "map snd ?xs = map fst (sort_key fst m)"
    by (simp add: comp_def)
  also have "mset (map fst (sort_key fst m)) = mset (map fst m)"
    by (simp only: mset_map mset_sort)
  finally show ?thesis
    by (simp only: convertActiveIncludesToVector_def Let_def)
qed

lemma convert_sorted:
  assumes c: "std_sort_contract std_sort" and d: "distinct (map fst m)"
    and ij: "i < j" "j < length (convertActiveIncludesToVector std_sort m)"
  shows "\<exists>di dj. map_of m (convertActiveIncludesToVector std_sort m ! i) = Some di \<and>
                 map_of m (convertActiveIncludesToVector std_sort m ! j) = Some dj \<and> dj \<le> di"
proof -
  let ?xs = "map (\<lambda>pair. (snd pair, fst pair)) (sort_key fst m)"
  let ?ys = "std_sort ?xs"
  have out: "convertActiveIncludesToVector std_sort m = map snd ?ys"
    by (simp add: convertActiveIncludesToVector_def)
  have ms: "mset ?ys = mset ?xs" and so: "sorted_wrt (\<lambda>a b. \<not> fst b > fst a) ?ys"
    using c by (simp_all add: std_sort_contract_def)
  from ms have "set ?ys = set ?xs" by (rule mset_eq_setD)
  then have mem: "\<And>y. y \<in> set ?ys \<Longrightarrow> (snd y, fst y) \<in> set m"
    by auto
  from ij out have j: "j < length ?ys" and i: "i < length ?ys" by simp_all
  from mem [OF nth_mem [OF i]] have mi: "map_of m (snd (?ys ! i)) = Some (fst (?ys ! i))"
    by (simp only: map_of_eq_Some_iff [OF d])
  from mem [OF nth_mem [OF j]] have mj: "map_of m (snd (?ys ! j)) = Some (fst (?ys ! j))"
    by (simp only: map_of_eq_Some_iff [OF d])
  from so ij(1) j have "\<not> fst (?ys ! j) > fst (?ys ! i)"
    by (simp add: sorted_wrt_iff_nth_less)
  then have "fst (?ys ! j) \<le> fst (?ys ! i)" by simp
  moreover from i have "convertActiveIncludesToVector std_sort m ! i = snd (?ys ! i)"
    by (simp only: out nth_map)
  moreover from j have "convertActiveIncludesToVector std_sort m ! j = snd (?ys ! j)"
    by (simp only: out nth_map)
  ultimately show ?thesis using mi mj by simp
qed

text \<open>
  C6. For every \<^verbatim>\<open>std::sort\<close> that meets its contract, the emitted sequence holds
  the keys of the depth map, each once, and a file with a strictly larger recorded
  depth stands before a file with a smaller one.
\<close>

theorem emission_order:
  assumes "std_sort_contract std_sort" and "distinct (map fst m)"
  shows "mset (convertActiveIncludesToVector std_sort m) = mset (map fst m) \<and>
         (\<forall>i j di dj.
            i < length (convertActiveIncludesToVector std_sort m) \<and>
            j < length (convertActiveIncludesToVector std_sort m) \<and>
            map_of m (convertActiveIncludesToVector std_sort m ! i) = Some di \<and>
            map_of m (convertActiveIncludesToVector std_sort m ! j) = Some dj \<and>
            dj < di \<longrightarrow> i < j)"
proof (intro conjI allI impI)
  show "mset (convertActiveIncludesToVector std_sort m) = mset (map fst m)"
    using assms(1) by (rule convert_mset)
next
  fix i j di dj
  let ?out = "convertActiveIncludesToVector std_sort m"
  assume a: "i < length ?out \<and> j < length ?out \<and> map_of m (?out ! i) = Some di \<and>
             map_of m (?out ! j) = Some dj \<and> dj < di"
  then have li: "i < length ?out" and lj: "j < length ?out"
    and mi: "map_of m (?out ! i) = Some di" and mj: "map_of m (?out ! j) = Some dj"
    and lt: "dj < di"
    by simp_all
  show "i < j"
  proof (rule ccontr)
    assume "\<not> i < j"
    then consider "i = j" | "j < i" by linarith
    then show False
    proof cases
      case 1
      with mi mj have "di = dj" by simp
      with lt show False by simp
    next
      case 2
      from convert_sorted [OF assms 2 li] obtain ei ej
        where "map_of m (?out ! j) = Some ej" and "map_of m (?out ! i) = Some ei"
          and "ei \<le> ej"
        by blast
      with mi mj have "di \<le> dj" by simp
      with lt show False by simp
    qed
  qed
qed

lemma insertion_sort_desc_contract: "std_sort_contract insertion_sort_desc"
  unfolding std_sort_contract_def insertion_sort_desc_def
proof (intro allI conjI)
  fix xs :: "(32 word \<times> 'a) list"
  show "mset (rev (sort_key fst xs)) = mset xs" by simp
  have "sorted (map fst (sort_key fst xs))" by (rule sorted_sort_key)
  then have "sorted_wrt (\<lambda>a b. fst a \<le> fst b) (sort_key fst xs)"
    by (simp add: sorted_map)
  then show "sorted_wrt (\<lambda>a b. \<not> fst a < fst b) (rev (sort_key fst xs))"
    by (simp add: sorted_wrt_rev not_less)
qed

theorem emission_order_witness:
  "convertActiveIncludesToVector insertion_sort_desc
      [(''a'', 0), (''b'', 2), (''c'', 1)] = [''b'', ''c'', ''a''] \<and>
   mset (convertActiveIncludesToVector insertion_sort_desc
      [(''a'', 0), (''b'', 2), (''c'', 1)]) =
     mset (map fst [(''a'', 0 :: 32 word), (''b'', 2), (''c'', 1)])"
proof -
  have d: "distinct (map fst [(''a'', 0 :: 32 word), (''b'', 2), (''c'', 1)])"
    by simp
  have e: "convertActiveIncludesToVector insertion_sort_desc
      [(''a'', 0), (''b'', 2), (''c'', 1)] = [''b'', ''c'', ''a'']"
    by code_simp
  from e emission_order [OF insertion_sort_desc_contract d, THEN conjunct1]
  show ?thesis by (rule conjI)
qed

subsection \<open>Exit codes\<close>

text \<open>
  C9. \<^verbatim>\<open>main\<close> returns whenever the walk returns. With a wrong argument count,
  or a root path that cannot be made canonical, it returns exit code 1 and writes no
  output. When the walk returns failure, \<^verbatim>\<open>findIncludes failed.\<close> is logged after
  the walk's own messages, and then: if an output file is named and cannot be opened,
  the exit code is 1; otherwise the emission pass runs over the map that the walk left
  and the exit code is 0. A walk that returns success gives the same two cases without
  the message.
\<close>

theorem discovery_failure_nonfatal:
  "(length argv < 2 \<or> 3 < length argv \<longrightarrow>
      main fuel std_sort fs argv =
        Some \<lparr>exit_code = 1, written = [], diagnostics = [UsageError], final_map = []\<rparr>) \<and>
   (2 \<le> length argv \<and> length argv \<le> 3 \<and>
    canonical fs (join fs (parent_path fs (absolute fs (argv ! 0))) (argv ! 1)) = None \<longrightarrow>
      main fuel std_sort fs argv =
        Some \<lparr>exit_code = 1, written = [], diagnostics = [CanonicalInitialError (argv ! 1)],
              final_map = []\<rparr>) \<and>
   (2 \<le> length argv \<and> length argv \<le> 3 \<and>
    canonical fs (join fs (parent_path fs (absolute fs (argv ! 0))) (argv ! 1)) = Some root \<and>
    findIncludes fuel fs root (parent_path fs root) initial_state 0 = Some (False, s) \<longrightarrow>
      main fuel std_sort fs argv =
        Some (if length argv = 3 \<and> \<not> writable fs (argv ! 2) then
                \<lparr>exit_code = 1, written = [],
                 diagnostics = cerr s @ [FindIncludesFailed] @ [CouldNotOpenOutput (argv ! 2)],
                 final_map = activeIncludes s\<rparr>
              else
                \<lparr>exit_code = 0,
                 written =
                   fst (emitFiles fs (convertActiveIncludesToVector std_sort (activeIncludes s))),
                 diagnostics =
                   cerr s @ [FindIncludesFailed] @
                   snd (emitFiles fs (convertActiveIncludesToVector std_sort (activeIncludes s))),
                 final_map = activeIncludes s\<rparr>)) \<and>
   (2 \<le> length argv \<and> length argv \<le> 3 \<and>
    canonical fs (join fs (parent_path fs (absolute fs (argv ! 0))) (argv ! 1)) = Some root \<and>
    findIncludes fuel fs root (parent_path fs root) initial_state 0 = Some (True, s) \<longrightarrow>
      main fuel std_sort fs argv =
        Some (if length argv = 3 \<and> \<not> writable fs (argv ! 2) then
                \<lparr>exit_code = 1, written = [],
                 diagnostics = cerr s @ [CouldNotOpenOutput (argv ! 2)],
                 final_map = activeIncludes s\<rparr>
              else
                \<lparr>exit_code = 0,
                 written =
                   fst (emitFiles fs (convertActiveIncludesToVector std_sort (activeIncludes s))),
                 diagnostics =
                   cerr s @
                   snd (emitFiles fs (convertActiveIncludesToVector std_sort (activeIncludes s))),
                 final_map = activeIncludes s\<rparr>))"
  by (auto simp: main_def Let_def split: prod.splits simp del: findIncludes.simps)

theorem discovery_failure_nonfatal_witness:
  "main 3 insertion_sort_desc missing_fs [''prog'', ''a''] =
     Some \<lparr>exit_code = 0, written = [''body b''],
           diagnostics = [CouldNotOpenFile ''zz'', FindIncludesFailed],
           final_map = [(''b'', 1)]\<rparr> \<and>
   main 3 insertion_sort_desc missing_fs [''prog'', ''a'', ''out''] =
     Some \<lparr>exit_code = 0, written = [''body b''],
           diagnostics = [CouldNotOpenFile ''zz'', FindIncludesFailed],
           final_map = [(''b'', 1)]\<rparr> \<and>
   main 3 insertion_sort_desc readonly_fs [''prog'', ''a'', ''out''] =
     Some \<lparr>exit_code = 1, written = [],
           diagnostics = [CouldNotOpenFile ''zz'', FindIncludesFailed, CouldNotOpenOutput ''out''],
           final_map = [(''b'', 1)]\<rparr> \<and>
   main 3 insertion_sort_desc missing_fs [''prog''] =
     Some \<lparr>exit_code = 1, written = [], diagnostics = [UsageError], final_map = []\<rparr> \<and>
   main 3 insertion_sort_desc (missing_fs\<lparr>canonical := (\<lambda>p. None)\<rparr>) [''prog'', ''a''] =
     Some \<lparr>exit_code = 1, written = [], diagnostics = [CanonicalInitialError ''a''],
           final_map = []\<rparr> \<and>
   main 3 insertion_sort_desc diamond_fs [''prog'', ''a'', ''out''] =
     Some \<lparr>exit_code = 0, written = [''body b'', ''body c'', ''body a''], diagnostics = [],
           final_map = [(''a'', 0), (''b'', 2), (''c'', 1)]\<rparr>"
proof -
  let ?s = "\<lparr>activeIncludes = [(''b'', 1 :: 32 word)], cerr = [CouldNotOpenFile ''zz''],
            visits = [(''a'', 0), (''b'', 1), (''zz'', 1)]\<rparr>"
  have w: "findIncludes 3 missing_fs ''a'' (parent_path missing_fs ''a'') initial_state 0 =
      Some (False, ?s)"
    by code_simp
  have w': "findIncludes 3 readonly_fs ''a'' (parent_path readonly_fs ''a'') initial_state 0 =
      Some (False, ?s)"
    by code_simp
  have em: "emitFiles missing_fs (convertActiveIncludesToVector insertion_sort_desc [(''b'', 1)]) =
      ([''body b''], [])"
    by code_simp
  have c: "canonical missing_fs p = Some p" "join missing_fs q name = name"
    "writable missing_fs name" for p q name
    by (simp_all add: missing_fs_def flat_fs_def)
  have c': "canonical readonly_fs p = Some p" "join readonly_fs q name = name"
    "\<not> writable readonly_fs name" for p q name
    by (simp_all add: readonly_fs_def missing_fs_def flat_fs_def)
  have m1: "main 3 insertion_sort_desc missing_fs [''prog'', ''a''] =
     Some \<lparr>exit_code = 0, written = [''body b''],
           diagnostics = [CouldNotOpenFile ''zz'', FindIncludesFailed],
           final_map = [(''b'', 1)]\<rparr>"
    using discovery_failure_nonfatal [where fuel = 3 and std_sort = insertion_sort_desc
        and fs = missing_fs and argv = "[''prog'', ''a'']" and root = "''a''" and s = ?s,
        THEN conjunct2, THEN conjunct2, THEN conjunct1] w
    by (simp add: c em)
  have m2: "main 3 insertion_sort_desc missing_fs [''prog'', ''a'', ''out''] =
     Some \<lparr>exit_code = 0, written = [''body b''],
           diagnostics = [CouldNotOpenFile ''zz'', FindIncludesFailed],
           final_map = [(''b'', 1)]\<rparr>"
    using discovery_failure_nonfatal [where fuel = 3 and std_sort = insertion_sort_desc
        and fs = missing_fs and argv = "[''prog'', ''a'', ''out'']" and root = "''a''" and s = ?s,
        THEN conjunct2, THEN conjunct2, THEN conjunct1] w
    by (simp add: c em)
  have m3: "main 3 insertion_sort_desc readonly_fs [''prog'', ''a'', ''out''] =
     Some \<lparr>exit_code = 1, written = [],
           diagnostics = [CouldNotOpenFile ''zz'', FindIncludesFailed, CouldNotOpenOutput ''out''],
           final_map = [(''b'', 1)]\<rparr>"
    using discovery_failure_nonfatal [where fuel = 3 and std_sort = insertion_sort_desc
        and fs = readonly_fs and argv = "[''prog'', ''a'', ''out'']" and root = "''a''" and s = ?s,
        THEN conjunct2, THEN conjunct2, THEN conjunct1] w'
    by (simp add: c')
  have m4: "main 3 insertion_sort_desc missing_fs [''prog''] =
     Some \<lparr>exit_code = 1, written = [], diagnostics = [UsageError], final_map = []\<rparr>"
    using discovery_failure_nonfatal [where fuel = 3 and std_sort = insertion_sort_desc
        and fs = missing_fs and argv = "[''prog'']", THEN conjunct1]
    by simp
  have m5: "main 3 insertion_sort_desc (missing_fs\<lparr>canonical := (\<lambda>p. None)\<rparr>)
      [''prog'', ''a''] =
     Some \<lparr>exit_code = 1, written = [], diagnostics = [CanonicalInitialError ''a''],
           final_map = []\<rparr>"
    using discovery_failure_nonfatal [where fuel = 3 and std_sort = insertion_sort_desc
        and fs = "missing_fs\<lparr>canonical := (\<lambda>p. None)\<rparr>" and argv = "[''prog'', ''a'']",
        THEN conjunct2, THEN conjunct1]
    by simp
  let ?d = "\<lparr>activeIncludes = [(''a'', 0 :: 32 word), (''b'', 2), (''c'', 1)], cerr = [],
            visits = [(''a'', 0 :: 32 word), (''b'', 1), (''c'', 1), (''b'', 2)]\<rparr>"
  have wd: "findIncludes 3 diamond_fs ''a'' (parent_path diamond_fs ''a'') initial_state 0 =
      Some (True, ?d)"
    by code_simp
  have emd: "emitFiles diamond_fs (convertActiveIncludesToVector insertion_sort_desc
      [(''a'', 0), (''b'', 2), (''c'', 1)]) = ([''body b'', ''body c'', ''body a''], [])"
    by code_simp
  have cd: "canonical diamond_fs p = Some p" "join diamond_fs q name = name"
    "writable diamond_fs name" for p q name
    by (simp_all add: diamond_fs_def flat_fs_def)
  have m6: "main 3 insertion_sort_desc diamond_fs [''prog'', ''a'', ''out''] =
     Some \<lparr>exit_code = 0, written = [''body b'', ''body c'', ''body a''], diagnostics = [],
           final_map = [(''a'', 0), (''b'', 2), (''c'', 1)]\<rparr>"
    using discovery_failure_nonfatal [where fuel = 3 and std_sort = insertion_sort_desc
        and fs = diamond_fs and argv = "[''prog'', ''a'', ''out'']" and root = "''a''" and s = ?d,
        THEN conjunct2, THEN conjunct2, THEN conjunct2] wd
    by (simp add: cd emd)
  from m1 m2 m3 m4 m5 m6 show ?thesis by simp
qed

subsection \<open>The early stop\<close>

lemma word5_unat: "\<not> (c :: 32 word) < 5 \<longleftrightarrow> 5 \<le> unat c"
  by (simp add: word_less_nat_alt not_less)

lemma word5_suc: "(c :: 32 word) < 5 \<Longrightarrow> unat (c + 1) = Suc (unat c)"
  by (simp add: word_less_nat_alt unat_word_ariths)

lemma plain_lines_count:
  assumes "\<forall>l \<in> set ps. \<not> prefix include_directive_prefix l"
  shows "scanLines visit fs f base d (ps @ rest) c s =
         (if 5 \<le> unat c + length ps then Some (True, s)
          else scanLines visit fs f base d rest (c + of_nat (length ps)) s)"
  using assms
proof (induction ps arbitrary: c)
  case Nil
  show ?case
  proof (cases rest)
    case Nil
    then show ?thesis by simp
  next
    case (Cons l ls)
    then show ?thesis by (simp add: word5_unat)
  qed
next
  case (Cons l ps)
  from Cons.prems have np: "\<not> prefix include_directive_prefix l"
    and rest: "\<forall>l \<in> set ps. \<not> prefix include_directive_prefix l"
    by simp_all
  show ?case
  proof (cases "c < 5")
    case False
    then have "5 \<le> unat c" by (simp add: word5_unat)
    with False show ?thesis by simp
  next
    case True
    then have u: "unat (c + 1) = Suc (unat c)" by (rule word5_suc)
    from True np have "scanLines visit fs f base d ((l # ps) @ rest) c s =
        scanLines visit fs f base d (ps @ rest) (c + 1) s"
      by (simp add: str_rfind_0)
    also have "\<dots> = (if 5 \<le> unat (c + 1) + length ps then Some (True, s)
          else scanLines visit fs f base d rest (c + 1 + of_nat (length ps)) s)"
      by (rule Cons.IH [OF rest])
    also have "unat (c + 1) + length ps = unat c + length (l # ps)"
      using u by simp
    also have "c + 1 + of_nat (length ps) = c + of_nat (length (l # ps))"
      by simp
    finally show ?thesis .
  qed
qed

lemma directive_step:
  assumes "c < 5" and "prefix include_directive_prefix l"
    and "str_find l [CHR 0x22] (length include_directive_prefix) = Some e"
    and "removeDot fs (join fs base (substr l (length include_directive_prefix)
            (e - length include_directive_prefix))) s = (p, s1)"
    and "visit p (parent_path fs p) s1 (d + 1) = Some (True, s2)"
  shows "scanLines visit fs f base d (l # rest) c s = scanLines visit fs f base d rest 0 s2"
  using assms by (simp add: str_rfind_0 Let_def)

lemma std_sort_single:
  assumes "std_sort_contract std_sort"
  shows "std_sort [x] = [x]"
proof -
  from assms have "mset (std_sort [x]) = mset [x]"
    by (simp only: std_sort_contract_def)
  then show ?thesis by simp
qed

lemma late_include_walk:
  assumes "\<forall>l \<in> set ps. \<not> prefix include_directive_prefix l" and "5 \<le> length ps"
    and "readLines fs f = Some (ps @ rest)" and "map_of (activeIncludes s) f = None"
  shows "findIncludes (Suc n) fs f base s d =
         Some (True, s\<lparr>visits := visits s @ [(f, d)],
                       activeIncludes := AList.update f d (activeIncludes s)\<rparr>)"
  using assms(2-4) by (simp add: Let_def scanFile_def plain_lines_count [OF assms(1)])

text \<open>
  C5, as the code has it. A run of lines that do not begin with the directive prefix
  adds its length to the counter, and the scan stops, leaving the remaining lines
  unread, as soon as the counter has reached 5; a successful match continues the scan
  with the counter at 0; a malformed directive continues it with the counter as it
  was. So a root file with 5 or more (in particular 6) leading lines that do not begin
  with the prefix is the only file in the map, and the output holds that file's lines
  alone: a directive after them is never discovered.
\<close>

theorem early_stop:
  assumes "\<forall>l \<in> set ps. \<not> prefix include_directive_prefix l"
  shows "scanLines visit fs f base d (ps @ rest) c s =
           (if 5 \<le> unat c + length ps then Some (True, s)
            else scanLines visit fs f base d rest (c + of_nat (length ps)) s) \<and>
         (c < 5 \<and> prefix include_directive_prefix l \<and>
          str_find l [CHR 0x22] (length include_directive_prefix) = Some e \<and>
          removeDot fs (join fs base (substr l (length include_directive_prefix)
              (e - length include_directive_prefix))) s = (p, s1) \<and>
          visit p (parent_path fs p) s1 (d + 1) = Some (True, s2) \<longrightarrow>
            scanLines visit fs f base d (l # rest) c s =
              scanLines visit fs f base d rest 0 s2) \<and>
         (c < 5 \<and> malformed_directive l \<longrightarrow>
            scanLines visit fs f base d (l # rest) c s =
              scanLines visit fs f base d rest c
                (s\<lparr>cerr := cerr s @ [MalformedInclude f l]\<rparr>)) \<and>
         (5 \<le> length ps \<and> std_sort_contract std_sort \<and>
          2 \<le> length argv \<and> length argv \<le> 3 \<and>
          (length argv = 3 \<longrightarrow> writable fs (argv ! 2)) \<and>
          canonical fs (join fs (parent_path fs (absolute fs (argv ! 0))) (argv ! 1)) = Some root \<and>
          readLines fs root = Some (ps @ rest) \<longrightarrow>
            main (Suc n) std_sort fs argv =
              Some \<lparr>exit_code = 0, written = copyLines (ps @ rest), diagnostics = [],
                    final_map = [(root, 0)]\<rparr>)"
proof (intro conjI impI)
  show "scanLines visit fs f base d (ps @ rest) c s =
           (if 5 \<le> unat c + length ps then Some (True, s)
            else scanLines visit fs f base d rest (c + of_nat (length ps)) s)"
    using assms by (rule plain_lines_count)
next
  assume "c < 5 \<and> prefix include_directive_prefix l \<and>
          str_find l [CHR 0x22] (length include_directive_prefix) = Some e \<and>
          removeDot fs (join fs base (substr l (length include_directive_prefix)
              (e - length include_directive_prefix))) s = (p, s1) \<and>
          visit p (parent_path fs p) s1 (d + 1) = Some (True, s2)"
  then show "scanLines visit fs f base d (l # rest) c s =
              scanLines visit fs f base d rest 0 s2"
    by (elim conjE) (rule directive_step)
next
  assume "c < 5 \<and> malformed_directive l"
  then show "scanLines visit fs f base d (l # rest) c s =
              scanLines visit fs f base d rest c
                (s\<lparr>cerr := cerr s @ [MalformedInclude f l]\<rparr>)"
    by (simp add: malformed_step del: scanLines.simps)
next
  assume a: "5 \<le> length ps \<and> std_sort_contract std_sort \<and>
          2 \<le> length argv \<and> length argv \<le> 3 \<and>
          (length argv = 3 \<longrightarrow> writable fs (argv ! 2)) \<and>
          canonical fs (join fs (parent_path fs (absolute fs (argv ! 0))) (argv ! 1)) = Some root \<and>
          readLines fs root = Some (ps @ rest)"
  then have w: "findIncludes (Suc n) fs root (parent_path fs root) initial_state 0 =
      Some (True, \<lparr>activeIncludes = [(root, 0)], cerr = [], visits = [(root, 0)]\<rparr>)"
    using late_include_walk [OF assms, of fs root rest initial_state n "parent_path fs root" 0]
    by (simp add: initial_state_def)
  from a have srt: "std_sort [(0 :: 32 word, root)] = [(0, root)]"
    by (simp add: std_sort_single)
  from a w srt show "main (Suc n) std_sort fs argv =
              Some \<lparr>exit_code = 0, written = copyLines (ps @ rest), diagnostics = [],
                    final_map = [(root, 0)]\<rparr>"
    by (simp add: main_def Let_def convertActiveIncludesToVector_def del: findIncludes.simps)
qed

text \<open>
  The claim as stated fails: 5 consecutive lines without a successful match do not stop
  the scan when they are malformed directives, and the directive on the sixth line is
  found.
\<close>

theorem early_stop_counterexample:
  "findIncludes 2
     (flat_fs [(''a'', replicate 5 (include_directive_prefix @ ''x'') @ [inc ''b'']), (''b'', [])])
     ''a'' [] initial_state 0 =
   Some (True,
     \<lparr>activeIncludes = [(''a'', 0), (''b'', 1)],
      cerr = replicate 5 (MalformedInclude ''a'' (include_directive_prefix @ ''x'')),
      visits = [(''a'', 0), (''b'', 1)]\<rparr>)"
  by code_simp

theorem early_stop_witness:
  "main 1 insertion_sort_desc
     (flat_fs [(''a'', [''1'', ''2'', ''3'', ''4'', ''5'', ''6'', inc ''b'', ''body a'']),
               (''b'', [''body b''])])
     [''prog'', ''a''] =
   Some \<lparr>exit_code = 0, written = [''1'', ''2'', ''3'', ''4'', ''5'', ''6'', ''body a''],
         diagnostics = [], final_map = [(''a'', 0)]\<rparr>"
proof -
  let ?ps = "[''1'', ''2'', ''3'', ''4'', ''5'', ''6'']"
  let ?fs = "flat_fs [(''a'', [''1'', ''2'', ''3'', ''4'', ''5'', ''6'', inc ''b'', ''body a'']),
               (''b'', [''body b''])]"
  have h: "\<forall>l \<in> set ?ps. \<not> prefix include_directive_prefix l"
    by (simp add: include_directive_prefix_def)
  have "main (Suc 0) insertion_sort_desc ?fs [''prog'', ''a''] =
      Some \<lparr>exit_code = 0, written = copyLines (?ps @ [inc ''b'', ''body a'']), diagnostics = [],
            final_map = [(''a'', 0)]\<rparr>"
    by (rule early_stop [OF h, THEN conjunct2, THEN conjunct2, THEN conjunct2, THEN mp])
       (simp add: insertion_sort_desc_contract flat_fs_def)
  moreover have "copyLines (?ps @ [inc ''b'', ''body a'']) =
      [''1'', ''2'', ''3'', ''4'', ''5'', ''6'', ''body a'']"
    by code_simp
  ultimately show ?thesis by simp
qed

subsection \<open>Directive lines in a flat directory\<close>

lemma find_at_char_first:
  "c \<notin> set xs \<Longrightarrow> find_at [c] (xs @ c # ys) i = Some (i + length xs)"
  by (induction xs arbitrary: i) auto

lemma inc_prefix: "prefix include_directive_prefix (inc name)"
  by (simp add: inc_def)

lemma inc_find_quote:
  "CHR 0x22 \<notin> set name \<Longrightarrow>
   str_find (inc name) [CHR 0x22] (length include_directive_prefix) =
     Some (length include_directive_prefix + length name)"
  by (simp add: str_find_def inc_def find_at_char_first)

lemma inc_substr:
  "substr (inc name) (length include_directive_prefix) (length name) = name"
  by (simp add: substr_def inc_def)

lemma scanLines_inc_flat:
  assumes "CHR 0x22 \<notin> set name" and "c < 5"
  shows "scanLines visit (flat_fs files) f base d (inc name # rest) c s =
         (case visit name [] s (d + 1) of
            None \<Rightarrow> None
          | Some (False, s2) \<Rightarrow>
              Some (False, s2\<lparr>activeIncludes := AList.delete f (activeIncludes s2)\<rparr>)
          | Some (True, s2) \<Rightarrow> scanLines visit (flat_fs files) f base d rest 0 s2)"
proof -
  have r: "removeDot (flat_fs files) name s = (name, s)"
    by (simp add: removeDot_def flat_fs_def)
  have j: "join (flat_fs files) base name = name" and p: "parent_path (flat_fs files) name = []"
    by (simp_all add: flat_fs_def)
  show ?thesis
    using assms(2)
    by (simp add: str_rfind_0 inc_prefix inc_find_quote [OF assms(1)] inc_substr r j p)
qed

subsection \<open>A file that includes itself twice\<close>

lemma self_twice_scan:
  "scanFile visit self_twice ''a'' [] d s =
     (case visit ''a'' [] s (d + 1) of
        None \<Rightarrow> None
      | Some (False, s2) \<Rightarrow>
          Some (False, s2\<lparr>activeIncludes := AList.delete ''a'' (activeIncludes s2)\<rparr>)
      | Some (True, s2) \<Rightarrow>
          (case visit ''a'' [] s2 (d + 1) of
             None \<Rightarrow> None
           | Some (False, s3) \<Rightarrow>
               Some (False, s3\<lparr>activeIncludes := AList.delete ''a'' (activeIncludes s3)\<rparr>)
           | Some (True, s3) \<Rightarrow> Some (True, s3)))"
proof -
  have "readLines self_twice ''a'' = Some [inc ''a'', inc ''a'']"
    by (simp add: self_twice_def flat_fs_def)
  then show ?thesis
    by (simp add: scanFile_def self_twice_def scanLines_inc_flat
             del: scanLines.simps(2) split: option.splits prod.splits bool.splits)
qed

lemma self_twice_rescan_diverges:
  "map_of (activeIncludes s) ''a'' = Some v \<Longrightarrow> d \<le> v \<Longrightarrow>
   findIncludes n self_twice ''a'' [] s d = None"
proof (induction n arbitrary: s d v)
  case 0
  show ?case by simp
next
  case (Suc n)
  let ?s0 = "s\<lparr>visits := visits s @ [(''a'', d)]\<rparr>"
  from Suc.prems(2) have "\<not> v < d" by simp
  with Suc.prems(1) have top: "findIncludes (Suc n) self_twice ''a'' [] s d =
      scanFile (findIncludes n self_twice) self_twice ''a'' [] d ?s0"
    by (simp add: Let_def)
  have m0: "map_of (activeIncludes ?s0) ''a'' = Some v"
    using Suc.prems(1) by simp
  show ?case
  proof (cases "d + 1 \<le> v")
    case True
    from Suc.IH [OF m0 True]
    have "scanFile (findIncludes n self_twice) self_twice ''a'' [] d ?s0 = None"
      by (simp add: self_twice_scan)
    with top show ?thesis by (simp only:)
  next
    case False
    then have lt: "v < d + 1" by simp
    show ?thesis
    proof (cases n)
      case 0
      then have "scanFile (findIncludes n self_twice) self_twice ''a'' [] d ?s0 = None"
        by (simp add: self_twice_scan)
      with top show ?thesis by (simp only:)
    next
      case (Suc k)
      let ?s1 = "?s0\<lparr>visits := visits ?s0 @ [(''a'', d + 1)],
                    activeIncludes := AList.update ''a'' (d + 1) (activeIncludes ?s0)\<rparr>"
      from m0 lt have first: "findIncludes n self_twice ''a'' [] ?s0 (d + 1) = Some (True, ?s1)"
        by (simp add: Suc Let_def)
      have "map_of (activeIncludes ?s1) ''a'' = Some (d + 1)"
        by (simp add: update_conv')
      then have "findIncludes n self_twice ''a'' [] ?s1 (d + 1) = None"
        by (rule Suc.IH) simp
      with first
      have "scanFile (findIncludes n self_twice) self_twice ''a'' [] d ?s0 = None"
        by (simp add: self_twice_scan del: findIncludes.simps)
      with top show ?thesis by (simp only:)
    qed
  qed
qed

lemma self_twice_walk_diverges:
  "findIncludes n self_twice ''a'' [] initial_state 0 = None"
proof (cases n)
  case 0
  then show ?thesis by simp
next
  case (Suc k)
  let ?s0 = "\<lparr>activeIncludes = [(''a'', 0 :: 32 word)], cerr = [], visits = [(''a'', 0)]\<rparr>"
  have top: "findIncludes (Suc k) self_twice ''a'' [] initial_state 0 =
      scanFile (findIncludes k self_twice) self_twice ''a'' [] 0 ?s0"
    by (simp add: Let_def initial_state_def)
  show ?thesis
  proof (cases k)
    case 0
    then have "scanFile (findIncludes k self_twice) self_twice ''a'' [] 0 ?s0 = None"
      by (simp add: self_twice_scan)
    with top show ?thesis by (simp only: \<open>n = Suc k\<close>)
  next
    case (Suc j)
    let ?s1 = "\<lparr>activeIncludes = [(''a'', 1 :: 32 word)], cerr = [],
                visits = [(''a'', 0), (''a'', 1)]\<rparr>"
    have first: "findIncludes k self_twice ''a'' [] ?s0 (0 + 1) = Some (True, ?s1)"
      by (simp add: Suc Let_def)
    have "findIncludes k self_twice ''a'' [] ?s1 (0 + 1) = None"
      by (rule self_twice_rescan_diverges [where v = 1]) simp_all
    with first
    have "scanFile (findIncludes k self_twice) self_twice ''a'' [] 0 ?s0 = None"
      by (simp add: self_twice_scan del: findIncludes.simps)
    with top show ?thesis by (simp only: \<open>n = Suc k\<close>)
  qed
qed

text \<open>
  C2 fails on the code. The root file \<^verbatim>\<open>a\<close> whose two lines are both
  \<^verbatim>\<open>#include "a"\<close> includes itself inside the scan window, and no bound on the
  nesting of calls lets the walk, or \<^verbatim>\<open>main\<close>, return: the second directive
  finds the depth that the first one has just recorded, which is not smaller than the
  depth of the call, so the file is scanned again one level deeper, without end.
\<close>

theorem self_include_twice_never_returns:
  "findIncludes n self_twice ''a'' [] initial_state 0 = None \<and>
   main n std_sort self_twice [''prog'', ''a''] = None"
proof
  show w: "findIncludes n self_twice ''a'' [] initial_state 0 = None"
    by (rule self_twice_walk_diverges)
  have "canonical self_twice (join self_twice (parent_path self_twice
          (absolute self_twice ([''prog'', ''a''] ! 0))) ([''prog'', ''a''] ! 1)) = Some ''a''"
    and "parent_path self_twice ''a'' = []"
    by (simp_all add: self_twice_def flat_fs_def)
  with w show "main n std_sort self_twice [''prog'', ''a''] = None"
    by (simp add: main_def Let_def)
qed

subsection \<open>Relations between the state before and after a call\<close>

lemma removeDot_state:
  "removeDot fs p s = (q, s1) \<Longrightarrow> s1 = s \<or> (\<exists>x. s1 = s\<lparr>cerr := x\<rparr>)"
  by (auto simp: removeDot_def split: option.splits)

lemma scanLines_rel:
  assumes visit: "\<And>p q s1 d1 s2. visit p q s1 d1 = Some (True, s2) \<Longrightarrow> R s1 s2"
    and refl: "\<And>s. R s s"
    and trans: "\<And>s1 s2 s3. R s1 s2 \<Longrightarrow> R s2 s3 \<Longrightarrow> R s1 s3"
    and log: "\<And>s x. R s (s\<lparr>cerr := x\<rparr>)"
  shows "scanLines visit fs f base d lines c s = Some (True, s') \<Longrightarrow> R s s'"
proof (induction lines arbitrary: c s)
  case Nil
  then show ?case by (simp add: refl)
next
  case (Cons l lines)
  show ?case
  proof (cases "c < 5")
    case False
    with Cons.prems show ?thesis by (simp add: refl)
  next
    case c: True
    show ?thesis
    proof (cases "str_rfind l include_directive_prefix 0 = Some 0")
      case False
      with c Cons.prems have "scanLines visit fs f base d lines (c + 1) s = Some (True, s')"
        by simp
      then show ?thesis by (rule Cons.IH)
    next
      case p: True
      show ?thesis
      proof (cases "str_find l [CHR 0x22] (length include_directive_prefix)")
        case None
        with c p Cons.prems
        have "scanLines visit fs f base d lines c
                (s\<lparr>cerr := cerr s @ [MalformedInclude f l]\<rparr>) = Some (True, s')"
          by simp
        then have "R (s\<lparr>cerr := cerr s @ [MalformedInclude f l]\<rparr>) s'"
          by (rule Cons.IH)
        with log show ?thesis by (rule trans)
      next
        case (Some e)
        obtain q s1 where rd: "removeDot fs (join fs base (substr l (length include_directive_prefix)
            (e - length include_directive_prefix))) s = (q, s1)"
          by (cases "removeDot fs (join fs base (substr l (length include_directive_prefix)
            (e - length include_directive_prefix))) s")
        from rd have r1: "R s s1"
          by (auto dest!: removeDot_state simp: refl log)
        from c p Some rd Cons.prems obtain s2
          where v: "visit q (parent_path fs q) s1 (d + 1) = Some (True, s2)"
            and rest: "scanLines visit fs f base d lines 0 s2 = Some (True, s')"
          by (auto simp: Let_def split: option.splits bool.splits)
        from v have "R s1 s2" by (rule visit)
        moreover from rest have "R s2 s'" by (rule Cons.IH)
        ultimately have "R s1 s'" by (rule trans)
        with r1 show ?thesis by (rule trans)
      qed
    qed
  qed
qed

lemma findIncludes_rel:
  assumes refl: "\<And>s. R s s"
    and trans: "\<And>s1 s2 s3. R s1 s2 \<Longrightarrow> R s2 s3 \<Longrightarrow> R s1 s3"
    and log: "\<And>s x. R s (s\<lparr>cerr := x\<rparr>)"
    and raise: "\<And>s f d d_old. map_of (activeIncludes s) f = Some d_old \<Longrightarrow> d_old < d \<Longrightarrow>
        R s (s\<lparr>visits := visits s @ [(f, d)],
               activeIncludes := AList.update f d (activeIncludes s)\<rparr>)"
    and same: "\<And>s f d d_old. map_of (activeIncludes s) f = Some d_old \<Longrightarrow> \<not> d_old < d \<Longrightarrow>
        R s (s\<lparr>visits := visits s @ [(f, d)]\<rparr>)"
    and new: "\<And>s f d. map_of (activeIncludes s) f = None \<Longrightarrow>
        R s (s\<lparr>visits := visits s @ [(f, d)],
               activeIncludes := AList.update f d (activeIncludes s)\<rparr>)"
  shows "findIncludes n fs f base s d = Some (True, s') \<Longrightarrow> R s s'"
proof (induction n arbitrary: f base s d s')
  case 0
  then show ?case by simp
next
  case (Suc n)
  have scan: "\<And>s0. scanFile (findIncludes n fs) fs f base d s0 = Some (True, s') \<Longrightarrow> R s0 s'"
  proof -
    fix s0
    assume a: "scanFile (findIncludes n fs) fs f base d s0 = Some (True, s')"
    then obtain lines where "readLines fs f = Some lines"
      and sl: "scanLines (findIncludes n fs) fs f base d lines 0 s0 = Some (True, s')"
      by (auto simp: scanFile_def split: option.splits)
    from sl show "R s0 s'"
    proof (rule scanLines_rel [where R = R and visit = "findIncludes n fs", rotated -1])
      show "\<And>p q s1 d1 s2. findIncludes n fs p q s1 d1 = Some (True, s2) \<Longrightarrow> R s1 s2"
        by (rule Suc.IH)
    qed (rule refl, erule (1) trans, rule log)
  qed
  show ?case
  proof (cases "map_of (activeIncludes s) f")
    case None
    with Suc.prems have "scanFile (findIncludes n fs) fs f base d
        (s\<lparr>visits := visits s @ [(f, d)],
           activeIncludes := AList.update f d (activeIncludes s)\<rparr>) = Some (True, s')"
      by (simp add: Let_def)
    then have "R (s\<lparr>visits := visits s @ [(f, d)],
           activeIncludes := AList.update f d (activeIncludes s)\<rparr>) s'"
      by (rule scan)
    with new [OF None] show ?thesis by (rule trans)
  next
    case (Some d_old)
    show ?thesis
    proof (cases "d_old < d")
      case True
      with Some Suc.prems have "s' = s\<lparr>visits := visits s @ [(f, d)],
           activeIncludes := AList.update f d (activeIncludes s)\<rparr>"
        by (simp add: Let_def)
      with raise [OF Some True] show ?thesis by simp
    next
      case False
      with Some Suc.prems
      have "scanFile (findIncludes n fs) fs f base d (s\<lparr>visits := visits s @ [(f, d)]\<rparr>) =
          Some (True, s')"
        by (simp add: Let_def)
      then have "R (s\<lparr>visits := visits s @ [(f, d)]\<rparr>) s'"
        by (rule scan)
      with same [OF Some False] show ?thesis by (rule trans)
    qed
  qed
qed

subsection \<open>The depth map invariant\<close>

lemma finite_depths: "finite {d. (f, d) \<in> set vs}"
proof -
  have "{d. (f, d) \<in> set vs} \<subseteq> snd ` set vs" by force
  then show ?thesis by (rule finite_subset) simp
qed

lemma depths_snoc:
  "{e. (g, e) \<in> set (vs @ [(f, d)])} =
     (if g = f then insert d {e. (g, e) \<in> set vs} else {e. (g, e) \<in> set vs})"
  by auto

lemma depth_invariant_log [simp]: "depth_invariant (s\<lparr>cerr := x\<rparr>) = depth_invariant s"
  by (simp add: depth_invariant_def)

lemma depth_invariant_entry:
  assumes inv: "depth_invariant s"
  shows "depth_invariant
     (s\<lparr>visits := visits s @ [(f, d)],
        activeIncludes :=
          (case map_of (activeIncludes s) f of
             None \<Rightarrow> AList.update f d (activeIncludes s)
           | Some d_old \<Rightarrow>
               if d_old < d then AList.update f d (activeIncludes s) else activeIncludes s)\<rparr>)"
  unfolding depth_invariant_def
proof
  fix g
  let ?D = "{e. (g, e) \<in> set (visits s)}"
  from inv have old: "map_of (activeIncludes s) g =
      (if \<exists>e. (g, e) \<in> set (visits s) then Some (Max ?D) else None)"
    by (simp add: depth_invariant_def)
  show "map_of (activeIncludes (s\<lparr>visits := visits s @ [(f, d)],
        activeIncludes :=
          (case map_of (activeIncludes s) f of
             None \<Rightarrow> AList.update f d (activeIncludes s)
           | Some d_old \<Rightarrow>
               if d_old < d then AList.update f d (activeIncludes s) else activeIncludes s)\<rparr>)) g =
      (if \<exists>e. (g, e) \<in> set (visits (s\<lparr>visits := visits s @ [(f, d)],
        activeIncludes :=
          (case map_of (activeIncludes s) f of
             None \<Rightarrow> AList.update f d (activeIncludes s)
           | Some d_old \<Rightarrow>
               if d_old < d then AList.update f d (activeIncludes s) else activeIncludes s)\<rparr>))
       then Some (Max {e. (g, e) \<in> set (visits (s\<lparr>visits := visits s @ [(f, d)],
        activeIncludes :=
          (case map_of (activeIncludes s) f of
             None \<Rightarrow> AList.update f d (activeIncludes s)
           | Some d_old \<Rightarrow>
               if d_old < d then AList.update f d (activeIncludes s) else activeIncludes s)\<rparr>))})
       else None)"
  proof (cases "g = f")
    case False
    with old show ?thesis
      by (auto simp: update_conv' depths_snoc split: option.splits)
  next
    case True
    show ?thesis
    proof (cases "\<exists>e. (g, e) \<in> set (visits s)")
      case False
      then have "?D = {}" by simp
      with False old True show ?thesis
        by (simp add: update_conv' depths_snoc)
    next
      case ex: True
      define D where "D = {e. (f, e) \<in> set (visits s)}"
      from ex True have ne: "D \<noteq> {}" by (auto simp: D_def)
      have fin: "finite D" unfolding D_def by (rule finite_depths)
      have mx: "Max (insert d D) = max d (Max D)"
        using fin ne by (rule Max_insert)
      from ex old True have o: "map_of (activeIncludes s) f = Some (Max D)"
        by (simp add: D_def)
      have v: "{e. e = d \<or> (f, e) \<in> set (visits s)} = insert d D"
        by (auto simp: D_def)
      have "map_of (if Max D < d then AList.update f d (activeIncludes s) else activeIncludes s) f =
          Some (Max (insert d D))"
        using o by (auto simp: mx update_conv' max_def)
      then show ?thesis
        using True o by (auto simp: v)
    qed
  qed
qed

lemma depth_invariant_raise:
  "depth_invariant s \<Longrightarrow> map_of (activeIncludes s) f = Some d_old \<Longrightarrow> d_old < d \<Longrightarrow>
   depth_invariant (s\<lparr>visits := visits s @ [(f, d)],
                     activeIncludes := AList.update f d (activeIncludes s)\<rparr>)"
  using depth_invariant_entry [of s f d] by simp

lemma depth_invariant_same:
  "depth_invariant s \<Longrightarrow> map_of (activeIncludes s) f = Some d_old \<Longrightarrow> \<not> d_old < d \<Longrightarrow>
   depth_invariant (s\<lparr>visits := visits s @ [(f, d)]\<rparr>)"
  using depth_invariant_entry [of s f d] by simp

lemma depth_invariant_new:
  "depth_invariant s \<Longrightarrow> map_of (activeIncludes s) f = None \<Longrightarrow>
   depth_invariant (s\<lparr>visits := visits s @ [(f, d)],
                     activeIncludes := AList.update f d (activeIncludes s)\<rparr>)"
  using depth_invariant_entry [of s f d] by simp

lemma walk_keeps_invariant:
  assumes "findIncludes n fs f base s d = Some (True, s')"
  shows "(depth_invariant s \<longrightarrow> depth_invariant s') \<and> set (visits s) \<subseteq> set (visits s')"
  using assms
proof (rule findIncludes_rel [where
      R = "\<lambda>s s'. (depth_invariant s \<longrightarrow> depth_invariant s') \<and> set (visits s) \<subseteq> set (visits s')",
      rotated -1])
  fix s1 s2 s3 :: "'a walk_state"
  assume "(depth_invariant s1 \<longrightarrow> depth_invariant s2) \<and> set (visits s1) \<subseteq> set (visits s2)"
    and "(depth_invariant s2 \<longrightarrow> depth_invariant s3) \<and> set (visits s2) \<subseteq> set (visits s3)"
  then show "(depth_invariant s1 \<longrightarrow> depth_invariant s3) \<and> set (visits s1) \<subseteq> set (visits s3)"
    by blast
qed (auto intro: depth_invariant_raise depth_invariant_same depth_invariant_new)

subsection \<open>More fuel gives the same result\<close>


lemma findIncludes_Suc_eq:
  "findIncludes (Suc n) fs f base s d =
     (case map_of (activeIncludes s) f of
        Some d_old \<Rightarrow>
          if d_old < d then
            Some (True, s\<lparr>visits := visits s @ [(f, d)],
                          activeIncludes := AList.update f d (activeIncludes s)\<rparr>)
          else scanFile (findIncludes n fs) fs f base d (s\<lparr>visits := visits s @ [(f, d)]\<rparr>)
      | None \<Rightarrow>
          scanFile (findIncludes n fs) fs f base d
            (s\<lparr>visits := visits s @ [(f, d)],
               activeIncludes := AList.update f d (activeIncludes s)\<rparr>))"
  by (simp add: Let_def split: option.splits)



subsection \<open>The walk of an acyclic include graph\<close>

lemma recorded_simps [simp]:
  "recorded (s\<lparr>cerr := x\<rparr>) = recorded s"
  "recorded (s\<lparr>visits := y\<rparr>) = recorded s"
  "recorded (s\<lparr>activeIncludes := AList.update k v (activeIncludes s)\<rparr>) = insert k (recorded s)"
  by (simp_all add: recorded_def dom_update)


lemma removeDot_resolved:
  "removeDot fs p s = (q, s1) \<Longrightarrow> q = resolved fs p \<and> recorded s1 = recorded s"
  by (auto simp: removeDot_def resolved_def split: option.splits)






subsection \<open>Every reachable file is emitted once\<close>




lemma diamond_readLines:
  "readLines diamond_fs f =
     (if f = ''a'' then Some [inc ''b'', inc ''c'', ''body a'']
      else if f = ''b'' then Some [''body b'']
      else if f = ''c'' then Some [inc ''b'', ''body c''] else None)"
  by (simp add: diamond_fs_def flat_fs_def)


lemma diamond_targets:
  "scan_targets diamond_fs [] [inc ''b'', inc ''c'', ''body a''] 0 = [''b'', ''c'']"
  "scan_targets diamond_fs [] [''body b''] 0 = []"
  "scan_targets diamond_fs [] [inc ''b'', ''body c''] 0 = [''b'']"
  by code_simp+






subsection \<open>What a call leaves in the map and in the history\<close>

lemma walk_grows_refl: "walk_grows s s"
  by (simp add: walk_grows_def)

lemma walk_grows_trans: "walk_grows s1 s2 \<Longrightarrow> walk_grows s2 s3 \<Longrightarrow> walk_grows s1 s3"
  unfolding walk_grows_def
proof (intro conjI allI impI)
  assume a: "(\<exists>ws. visits s2 = visits s1 @ ws) \<and>
     (\<forall>g v. map_of (activeIncludes s1) g = Some v \<longrightarrow>
            (\<exists>v'. map_of (activeIncludes s2) g = Some v' \<and> v \<le> v'))"
    and b: "(\<exists>ws. visits s3 = visits s2 @ ws) \<and>
     (\<forall>g v. map_of (activeIncludes s2) g = Some v \<longrightarrow>
            (\<exists>v'. map_of (activeIncludes s3) g = Some v' \<and> v \<le> v'))"
  from a b show "\<exists>ws. visits s3 = visits s1 @ ws" by auto
  fix g v
  assume "map_of (activeIncludes s1) g = Some v"
  with a obtain v2 where "map_of (activeIncludes s2) g = Some v2" and "v \<le> v2" by blast
  moreover with b obtain v3 where "map_of (activeIncludes s3) g = Some v3" and "v2 \<le> v3"
    by blast
  ultimately show "\<exists>v'. map_of (activeIncludes s3) g = Some v' \<and> v \<le> v'" by auto
qed

lemma walk_grows_log: "walk_grows s (s\<lparr>cerr := x\<rparr>)"
  by (simp add: walk_grows_def)

lemma walk_grows_raise:
  "map_of (activeIncludes s) f = Some d_old \<Longrightarrow> d_old < d \<Longrightarrow>
   walk_grows s (s\<lparr>visits := visits s @ [(f, d)],
                  activeIncludes := AList.update f d (activeIncludes s)\<rparr>)"
  by (auto simp: walk_grows_def update_conv')

lemma walk_grows_same: "walk_grows s (s\<lparr>visits := visits s @ [(f, d)]\<rparr>)"
  by (simp add: walk_grows_def)

lemma walk_grows_new:
  "map_of (activeIncludes s) f = None \<Longrightarrow>
   walk_grows s (s\<lparr>visits := visits s @ [(f, d)],
                  activeIncludes := AList.update f d (activeIncludes s)\<rparr>)"
  by (auto simp: walk_grows_def update_conv')

lemma findIncludes_grows:
  "findIncludes n fs f base s d = Some (True, s') \<Longrightarrow> walk_grows s s'"
  by (rule findIncludes_rel [where R = walk_grows, rotated -1])
     (auto intro: walk_grows_refl walk_grows_trans walk_grows_log walk_grows_raise
        walk_grows_same walk_grows_new)

lemma scanLines_grows:
  "scanLines (findIncludes n fs) fs f base d lines c s = Some (True, s') \<Longrightarrow> walk_grows s s'"
  by (rule scanLines_rel [where R = walk_grows and visit = "findIncludes n fs", rotated -1])
     (auto intro: walk_grows_refl walk_grows_trans walk_grows_log findIncludes_grows)

lemma walk_grows_visit: "walk_grows s s' \<Longrightarrow> x \<in> set (visits s) \<Longrightarrow> x \<in> set (visits s')"
  by (auto simp: walk_grows_def)

lemma walk_grows_entry:
  "walk_grows s s' \<Longrightarrow> map_of (activeIncludes s) g = Some v \<Longrightarrow> e \<le> v \<Longrightarrow>
   \<exists>v'. map_of (activeIncludes s') g = Some v' \<and> e \<le> v'"
  unfolding walk_grows_def by (meson order_trans)

lemma call_logged:
  assumes "findIncludes n fs f base s d = Some (True, s')"
  shows "(\<exists>ws. visits s' = visits s @ (f, d) # ws) \<and>
         (\<exists>v. map_of (activeIncludes s') f = Some v \<and> d \<le> v)"
proof (cases n)
  case 0
  with assms show ?thesis by simp
next
  case (Suc m)
  have scan: "(\<exists>ws. visits s' = visits s @ (f, d) # ws) \<and>
         (\<exists>v. map_of (activeIncludes s') f = Some v \<and> d \<le> v)"
    if sc: "scanFile (findIncludes m fs) fs f base d s0 = Some (True, s')"
      and vis: "visits s0 = visits s @ [(f, d)]"
      and mf: "map_of (activeIncludes s0) f = Some vs" and le: "d \<le> vs" for s0 vs
  proof -
    from sc obtain lines
      where "scanLines (findIncludes m fs) fs f base d lines 0 s0 = Some (True, s')"
      by (auto simp: scanFile_def split: option.splits)
    then have g: "walk_grows s0 s'" by (rule scanLines_grows)
    then obtain ws where "visits s' = visits s0 @ ws" by (auto simp: walk_grows_def)
    with vis have "visits s' = visits s @ (f, d) # ws" by simp
    moreover from walk_grows_entry [OF g mf le]
    have "\<exists>v. map_of (activeIncludes s') f = Some v \<and> d \<le> v" .
    ultimately show ?thesis by blast
  qed
  show ?thesis
  proof (cases "map_of (activeIncludes s) f")
    case None
    let ?s0 = "s\<lparr>visits := visits s @ [(f, d)],
                 activeIncludes := AList.update f d (activeIncludes s)\<rparr>"
    from assms None have "scanFile (findIncludes m fs) fs f base d ?s0 = Some (True, s')"
      by (simp add: Suc findIncludes_Suc_eq del: findIncludes.simps)
    then show ?thesis
      by (rule scan [where vs = d]) (simp_all add: update_conv')
  next
    case (Some d_old)
    show ?thesis
    proof (cases "d_old < d")
      case True
      with assms Some have "s' = s\<lparr>visits := visits s @ [(f, d)],
                 activeIncludes := AList.update f d (activeIncludes s)\<rparr>"
        by (simp add: Suc findIncludes_Suc_eq del: findIncludes.simps)
      then show ?thesis by (simp add: update_conv')
    next
      case False
      let ?s0 = "s\<lparr>visits := visits s @ [(f, d)]\<rparr>"
      from assms Some False
      have "scanFile (findIncludes m fs) fs f base d ?s0 = Some (True, s')"
        by (simp add: Suc findIncludes_Suc_eq del: findIncludes.simps)
      then show ?thesis
        by (rule scan [where vs = d_old]) (use Some False in simp_all)
    qed
  qed
qed

lemma scanLines_targets_visited:
  "scanLines (findIncludes n fs) fs f base d lines c s = Some (True, s') \<Longrightarrow>
   g \<in> set (scan_targets fs base lines c) \<Longrightarrow>
   (g, d + 1) \<in> set (visits s') \<and>
   (\<exists>w. map_of (activeIncludes s') g = Some w \<and> d + 1 \<le> w)"
proof (induction lines arbitrary: c s)
  case Nil
  then show ?case by simp
next
  case (Cons l lines)
  show ?case
  proof (cases "c < 5")
    case False
    with Cons.prems show ?thesis by simp
  next
    case c: True
    show ?thesis
    proof (cases "str_rfind l include_directive_prefix 0 = Some 0")
      case False
      with c Cons.prems
      have "scanLines (findIncludes n fs) fs f base d lines (c + 1) s = Some (True, s')"
        and "g \<in> set (scan_targets fs base lines (c + 1))"
        by simp_all
      then show ?thesis by (rule Cons.IH)
    next
      case p: True
      show ?thesis
      proof (cases "str_find l [CHR 0x22] (length include_directive_prefix)")
        case None
        with c p Cons.prems
        have "scanLines (findIncludes n fs) fs f base d lines c
                (s\<lparr>cerr := cerr s @ [MalformedInclude f l]\<rparr>) = Some (True, s')"
          and "g \<in> set (scan_targets fs base lines c)"
          by simp_all
        then show ?thesis by (rule Cons.IH)
      next
        case (Some e)
        let ?g = "resolved fs (join fs base (substr l (length include_directive_prefix)
            (e - length include_directive_prefix)))"
        obtain q s1 where rd: "removeDot fs (join fs base (substr l (length include_directive_prefix)
            (e - length include_directive_prefix))) s = (q, s1)"
          by (cases "removeDot fs (join fs base (substr l (length include_directive_prefix)
            (e - length include_directive_prefix))) s")
        from removeDot_resolved [OF rd] have q: "q = ?g" by simp
        from c p Some rd Cons.prems(1) obtain s2
          where v: "findIncludes n fs q (parent_path fs q) s1 (d + 1) = Some (True, s2)"
            and rest: "scanLines (findIncludes n fs) fs f base d lines 0 s2 = Some (True, s')"
          by (auto simp: Let_def split: option.splits bool.splits simp del: findIncludes.simps)
        from c p Some Cons.prems(2) have "g = ?g \<or> g \<in> set (scan_targets fs base lines 0)"
          by (simp add: Let_def)
        then show ?thesis
        proof
          assume "g = ?g"
          with q have gq: "g = q" by simp
          from call_logged [OF v] obtain w
            where "(q, d + 1) \<in> set (visits s2)"
              and "map_of (activeIncludes s2) q = Some w" and "d + 1 \<le> w"
            by auto
          moreover from rest have "walk_grows s2 s'" by (rule scanLines_grows)
          ultimately show ?thesis
            unfolding gq by (blast intro: walk_grows_visit dest: walk_grows_entry)
        next
          assume "g \<in> set (scan_targets fs base lines 0)"
          with rest show ?thesis by (rule Cons.IH)
        qed
      qed
    qed
  qed
qed

subsection \<open>The depth map and the calls\<close>

lemma invariant_entry_is_largest:
  assumes i: "depth_invariant s" and m: "(g, e) \<in> set (visits s)"
  shows "\<exists>v. map_of (activeIncludes s) g = Some v \<and> e \<le> v \<and> (g, v) \<in> set (visits s)"
proof -
  let ?D = "{e. (g, e) \<in> set (visits s)}"
  from m have ne: "?D \<noteq> {}" by blast
  from i m have "map_of (activeIncludes s) g = Some (Max ?D)"
    by (auto simp: depth_invariant_def)
  moreover from m have "e \<le> Max ?D"
    using finite_depths by (simp add: Max_ge)
  moreover have "Max ?D \<in> ?D"
    using finite_depths ne by (rule Max_in)
  ultimately show ?thesis by simp
qed

text \<open>
  C4, as the code has it. A call of \<^verbatim>\<open>findIncludes\<close> on a file at depth
  \<open>d\<close> that returns success has been added to the history, has left the file
  recorded at a depth of at least \<open>d\<close>, and has lowered or removed no entry. If
  the file was recorded at a smaller depth, the call has only raised its entry:
  nothing was scanned and the history got this one call. Otherwise every file that the
  scan of the file visits has been called at depth \<open>d + 1\<close> and is recorded at a
  depth of at least \<open>d + 1\<close>. And if the map held, for every file, the largest depth
  of the calls made on it so far, it does so again after the call: every entry is the
  depth of a call made on its file, and not smaller than the depth of any such call.
\<close>

theorem depth_map_invariant:
  assumes "findIncludes n fs f base s d = Some (True, s')"
  shows "(\<exists>ws. visits s' = visits s @ (f, d) # ws) \<and>
         (\<exists>v. map_of (activeIncludes s') f = Some v \<and> d \<le> v) \<and>
         (\<forall>g v. map_of (activeIncludes s) g = Some v \<longrightarrow>
                (\<exists>v'. map_of (activeIncludes s') g = Some v' \<and> v \<le> v')) \<and>
         (\<forall>d_old. map_of (activeIncludes s) f = Some d_old \<and> d_old < d \<longrightarrow>
                visits s' = visits s @ [(f, d)] \<and>
                map_of (activeIncludes s') = (map_of (activeIncludes s))(f \<mapsto> d)) \<and>
         (\<forall>lines g. readLines fs f = Some lines \<and>
                \<not> (\<exists>v. map_of (activeIncludes s) f = Some v \<and> v < d) \<and>
                g \<in> set (scan_targets fs base lines 0) \<longrightarrow>
                (g, d + 1) \<in> set (visits s') \<and>
                (\<exists>w. map_of (activeIncludes s') g = Some w \<and> d + 1 \<le> w)) \<and>
         (depth_invariant s \<longrightarrow>
            depth_invariant s' \<and>
            (\<forall>g e. (g, e) \<in> set (visits s') \<longrightarrow>
                (\<exists>v. map_of (activeIncludes s') g = Some v \<and> e \<le> v \<and>
                     (g, v) \<in> set (visits s'))))"
proof (intro conjI allI impI)
  from call_logged [OF assms]
  show "\<exists>ws. visits s' = visits s @ (f, d) # ws"
    and "\<exists>v. map_of (activeIncludes s') f = Some v \<and> d \<le> v"
    by simp_all
next
  fix g v
  assume "map_of (activeIncludes s) g = Some v"
  with findIncludes_grows [OF assms]
  show "\<exists>v'. map_of (activeIncludes s') g = Some v' \<and> v \<le> v'"
    by (simp add: walk_grows_def)
next
  fix d_old
  assume a: "map_of (activeIncludes s) f = Some d_old \<and> d_old < d"
  from assms obtain m where n: "n = Suc m" by (cases n) simp_all
  from assms a have "s' = s\<lparr>visits := visits s @ [(f, d)],
                 activeIncludes := AList.update f d (activeIncludes s)\<rparr>"
    by (simp add: n findIncludes_Suc_eq del: findIncludes.simps)
  then show "visits s' = visits s @ [(f, d)]"
    and "map_of (activeIncludes s') = (map_of (activeIncludes s))(f \<mapsto> d)"
    by (simp_all add: update_conv')
next
  fix lines g
  assume a: "readLines fs f = Some lines \<and>
      \<not> (\<exists>v. map_of (activeIncludes s) f = Some v \<and> v < d) \<and>
      g \<in> set (scan_targets fs base lines 0)"
  from assms obtain m where n: "n = Suc m" by (cases n) simp_all
  from assms a obtain s0
    where "scanLines (findIncludes m fs) fs f base d lines 0 s0 = Some (True, s')"
    by (auto simp: n findIncludes_Suc_eq scanFile_def split: option.splits if_splits
             simp del: findIncludes.simps)
  with a show "(g, d + 1) \<in> set (visits s')"
    and "\<exists>w. map_of (activeIncludes s') g = Some w \<and> d + 1 \<le> w"
    by (simp_all add: scanLines_targets_visited)
next
  assume i: "depth_invariant s"
  with walk_keeps_invariant [OF assms] show i': "depth_invariant s'" by simp
  fix g e
  assume "(g, e) \<in> set (visits s')"
  with i' show "\<exists>v. map_of (activeIncludes s') g = Some v \<and> e \<le> v \<and> (g, v) \<in> set (visits s')"
    by (rule invariant_entry_is_largest)
qed


text \<open>
  The claim as stated fails for the depths along include paths: \<^verbatim>\<open>d\<close> is
  included by \<^verbatim>\<open>b\<close>, which \<^verbatim>\<open>c\<close> includes, which the root includes, so an
  include path reaches \<^verbatim>\<open>d\<close> at depth 3; but \<^verbatim>\<open>b\<close> is only raised to
  depth 2 when \<^verbatim>\<open>c\<close> includes it, it is not scanned again, and \<^verbatim>\<open>d\<close> stays
  recorded at depth 2.
\<close>

theorem depth_map_invariant_counterexample:
  "readLines hop_fs ''a'' = Some [inc ''b'', inc ''c''] \<and>
   readLines hop_fs ''c'' = Some [inc ''b''] \<and>
   readLines hop_fs ''b'' = Some [inc ''d''] \<and>
   findIncludes 3 hop_fs ''a'' [] initial_state 0 =
     Some (True,
       \<lparr>activeIncludes = [(''a'', 0), (''b'', 2), (''d'', 2), (''c'', 1)], cerr = [],
        visits = [(''a'', 0), (''b'', 1), (''d'', 2), (''c'', 1), (''b'', 2)]\<rparr>)"
  by code_simp

theorem depth_map_invariant_witness:
  "findIncludes 3 diamond_fs ''a'' [] initial_state 0 =
     Some (True, \<lparr>activeIncludes = [(''a'', 0), (''b'', 2), (''c'', 1)], cerr = [],
                  visits = [(''a'', 0), (''b'', 1), (''c'', 1), (''b'', 2)]\<rparr>) \<and>
   depth_invariant \<lparr>activeIncludes = [(''a'', 0), (''b'', 2), (''c'', 1)], cerr = [],
                    visits = [(''a'', 0), (''b'', 1), (''c'', 1), (''b'', 2)]\<rparr> \<and>
   (\<exists>w. map_of (activeIncludes \<lparr>activeIncludes = [(''a'', 0), (''b'', 2), (''c'', 1)],
                    cerr = [], visits = [(''a'', 0), (''b'', 1), (''c'', 1), (''b'', 2)]\<rparr>) ''c'' =
          Some w \<and> (0 :: 32 word) + 1 \<le> w) \<and>
   (\<exists>v. map_of (activeIncludes \<lparr>activeIncludes = [(''a'', 0), (''b'', 2), (''c'', 1)],
                    cerr = [], visits = [(''a'', 0), (''b'', 1), (''c'', 1), (''b'', 2)]\<rparr>) ''b'' =
          Some v \<and> (1 :: 32 word) \<le> v \<and>
          (''b'', v) \<in> set (visits \<lparr>activeIncludes = [(''a'', 0), (''b'', 2), (''c'', 1)],
                    cerr = [], visits = [(''a'', 0), (''b'', 1), (''c'', 1), (''b'', 2)]\<rparr>)) \<and>
   findIncludes 1 hop_fs ''b'' []
       \<lparr>activeIncludes = [(''a'', 0), (''b'', 1), (''d'', 2), (''c'', 1)], cerr = [],
        visits = [(''a'', 0), (''b'', 1), (''d'', 2), (''c'', 1)]\<rparr> 2 =
     Some (True,
       \<lparr>activeIncludes = [(''a'', 0), (''b'', 2), (''d'', 2), (''c'', 1)], cerr = [],
        visits = [(''a'', 0), (''b'', 1), (''d'', 2), (''c'', 1), (''b'', 2)]\<rparr>) \<and>
   visits \<lparr>activeIncludes = [(''a'', 0 :: 32 word), (''b'', 2), (''d'', 2), (''c'', 1)],
           cerr = [],
           visits = [(''a'', 0 :: 32 word), (''b'', 1), (''d'', 2), (''c'', 1), (''b'', 2)]\<rparr> =
     visits \<lparr>activeIncludes = [(''a'', 0 :: 32 word), (''b'', 1), (''d'', 2), (''c'', 1)],
             cerr = [],
             visits = [(''a'', 0 :: 32 word), (''b'', 1), (''d'', 2), (''c'', 1)]\<rparr> @
     [(''b'', 2)]"
proof -
  let ?s = "\<lparr>activeIncludes = [(''a'', 0 :: 32 word), (''b'', 2), (''c'', 1)], cerr = [],
            visits = [(''a'', 0 :: 32 word), (''b'', 1), (''c'', 1), (''b'', 2)]\<rparr>"
  have e: "findIncludes 3 diamond_fs ''a'' [] initial_state 0 = Some (True, ?s)"
    by code_simp
  note t = depth_map_invariant [OF e]
  have i: "depth_invariant (initial_state :: string walk_state)"
    by (simp add: depth_invariant_def initial_state_def)
  from t i have inv: "depth_invariant ?s"
    and big: "\<And>g e. (g, e) \<in> set (visits ?s) \<Longrightarrow>
        \<exists>v. map_of (activeIncludes ?s) g = Some v \<and> e \<le> v \<and> (g, v) \<in> set (visits ?s)"
    by blast+
  have r: "readLines diamond_fs ''a'' = Some [inc ''b'', inc ''c'', ''body a'']"
    by (simp add: diamond_readLines)
  have n: "\<not> (\<exists>v. map_of (activeIncludes (initial_state :: string walk_state)) ''a'' = Some v \<and>
                    v < 0)"
    by (simp add: initial_state_def)
  have c: "''c'' \<in> set (scan_targets diamond_fs [] [inc ''b'', inc ''c'', ''body a''] 0)"
    by (simp add: diamond_targets del: scan_targets.simps)
  from t r n c have inc: "\<exists>w. map_of (activeIncludes ?s) ''c'' = Some w \<and> (0 :: 32 word) + 1 \<le> w"
    by blast
  have "(''b'', 1 :: 32 word) \<in> set (visits ?s)" by simp
  from big [OF this] have largest: "\<exists>v. map_of (activeIncludes ?s) ''b'' = Some v \<and>
      (1 :: 32 word) \<le> v \<and> (''b'', v) \<in> set (visits ?s)" .
  let ?p = "\<lparr>activeIncludes = [(''a'', 0 :: 32 word), (''b'', 1), (''d'', 2), (''c'', 1)],
            cerr = [],
            visits = [(''a'', 0 :: 32 word), (''b'', 1), (''d'', 2), (''c'', 1)]\<rparr>"
  let ?q = "\<lparr>activeIncludes = [(''a'', 0 :: 32 word), (''b'', 2), (''d'', 2), (''c'', 1)],
            cerr = [],
            visits = [(''a'', 0 :: 32 word), (''b'', 1), (''d'', 2), (''c'', 1), (''b'', 2)]\<rparr>"
  have e2: "findIncludes 1 hop_fs ''b'' [] ?p 2 = Some (True, ?q)"
    by code_simp
  have old: "map_of (activeIncludes ?p) ''b'' = Some 1 \<and> (1 :: 32 word) < 2"
    by simp
  from depth_map_invariant [OF e2, THEN conjunct2, THEN conjunct2, THEN conjunct2,
      THEN conjunct1, rule_format, OF old]
  have raised: "visits ?q = visits ?p @ [(''b'', 2)]"
    by (rule conjunct1)
  from e inv inc largest e2 raised show ?thesis by blast
qed

end
